theory Spec2Isabelle
  imports Main "HOL-Library.Word" "HOL-Library.AList"
begin

section \<open>Strings\<close>

text \<open>
  A JavaScript string is a sequence of 16-bit code units, and a regular expression without
  the \<open>u\<close> flag works on code units. \<open>js\<close> embeds an ASCII literal.
\<close>

type_synonym jschar = "16 word"

type_synonym jsstring = "jschar list"

definition js :: "string \<Rightarrow> jsstring" where
  "js s = map (\<lambda>c. of_char c) s"

definition dquote :: jschar where
  "dquote = 0x22"

definition newline :: jschar where
  "newline = 0x0A"

text \<open>
  The class \<open>\s\<close> of ECMAScript: TAB, LF, VT, FF, CR, SP, NBSP, U+1680, U+2000 to U+200A,
  U+2028, U+2029, U+202F, U+205F, U+3000 and U+FEFF.
\<close>

definition isSpace :: "jschar \<Rightarrow> bool" where
  "isSpace c = (c \<in> set [0x09, 0x0A, 0x0B, 0x0C, 0x0D, 0x20, 0xA0, 0x1680, 0x2028, 0x2029,
                          0x202F, 0x205F, 0x3000, 0xFEFF]
                \<or> (0x2000 \<le> c \<and> c \<le> 0x200A))"

definition notQuote :: "jschar \<Rightarrow> bool" where
  "notQuote c = (c \<noteq> dquote)"

section \<open>The tag regexes of logParser.ts\<close>

text \<open>
  The four patterns differ in the tag name only:
  \<^verbatim>\<open>/<NAME\s+key="([^"]+)"\s+value="([^"]*)"\s*\/>/g\<close>.
  A pattern is kept as its tag name and its \<open>g\<close> flag. Every quantified class of the
  pattern is followed by a character outside the class, so the greedy quantifier can only
  stop at the first character outside the class: one attempt at one position has at most
  one outcome, and each piece of the pattern is a function on the rest of the input.
\<close>

record regex =
  tag_name :: jsstring
  global :: bool

definition SPAN_PARAM_REGEX :: regex where
  "SPAN_PARAM_REGEX = \<lparr>tag_name = js ''span-parameter'', global = True\<rparr>"

definition STEP_PARAM_REGEX :: regex where
  "STEP_PARAM_REGEX = \<lparr>tag_name = js ''step-parameter'', global = True\<rparr>"

definition JOB_PARAM_REGEX :: regex where
  "JOB_PARAM_REGEX = \<lparr>tag_name = js ''job-parameter'', global = True\<rparr>"

definition WORKFLOW_PARAM_REGEX :: regex where
  "WORKFLOW_PARAM_REGEX = \<lparr>tag_name = js ''workflow-parameter'', global = True\<rparr>"

text \<open>A literal piece of the pattern: the input must start with it.\<close>

fun strip_prefix :: "'a list \<Rightarrow> 'a list \<Rightarrow> 'a list option" where
  "strip_prefix [] s = Some s"
| "strip_prefix (p # ps) [] = None"
| "strip_prefix (p # ps) (c # cs) = (if p = c then strip_prefix ps cs else None)"

text \<open>\<open>\s+\<close> and \<open>\s*\<close>.\<close>

definition ws_plus :: "jsstring \<Rightarrow> jsstring option" where
  "ws_plus s = (if takeWhile isSpace s = [] then None else Some (dropWhile isSpace s))"

definition ws_star :: "jsstring \<Rightarrow> jsstring option" where
  "ws_star s = Some (dropWhile isSpace s)"

text \<open>The capture groups \<open>([^"]+)\<close> and \<open>([^"]*)\<close>: the captured text and the rest.\<close>

definition group_plus :: "jsstring \<Rightarrow> (jsstring \<times> jsstring) option" where
  "group_plus s = (if takeWhile notQuote s = [] then None
                   else Some (takeWhile notQuote s, dropWhile notQuote s))"

definition group_star :: "jsstring \<Rightarrow> (jsstring \<times> jsstring) option" where
  "group_star s = Some (takeWhile notQuote s, dropWhile notQuote s)"

text \<open>
  One attempt of the pattern at the start of \<open>s\<close>: the two captures and the input after
  the match.
\<close>

definition exec_at :: "jsstring \<Rightarrow> jsstring \<Rightarrow> (jsstring \<times> jsstring \<times> jsstring) option" where
  "exec_at nm s =
     Option.bind (strip_prefix (js ''<'' @ nm) s) (\<lambda>s1.
     Option.bind (ws_plus s1) (\<lambda>s2.
     Option.bind (strip_prefix (js ''key='' @ [dquote]) s2) (\<lambda>s3.
     Option.bind (group_plus s3) (\<lambda>(k, s4).
     Option.bind (strip_prefix [dquote] s4) (\<lambda>s5.
     Option.bind (ws_plus s5) (\<lambda>s6.
     Option.bind (strip_prefix (js ''value='' @ [dquote]) s6) (\<lambda>s7.
     Option.bind (group_star s7) (\<lambda>(v, s8).
     Option.bind (strip_prefix [dquote] s8) (\<lambda>s9.
     Option.bind (ws_star s9) (\<lambda>s10.
     Option.bind (strip_prefix (js ''/>'') s10) (\<lambda>rest.
     Some (k, v, rest))))))))))))"

lemma strip_prefix_Some: "strip_prefix p s = Some r \<longleftrightarrow> s = p @ r"
  by (induction p s rule: strip_prefix.induct) auto

lemma strip_prefix_append [simp]: "strip_prefix p (p @ r) = Some r"
  by (simp add: strip_prefix_Some)

lemma length_dropWhile_less: "takeWhile P s \<noteq> [] \<Longrightarrow> length (dropWhile P s) < length s"
  by (cases s) (auto simp: le_imp_less_Suc length_dropWhile_le split: if_splits)

lemma exec_at_shorter:
  assumes "exec_at nm s = Some (k, v, rest)"
  shows "length rest < length s"
proof -
  from assms obtain s1 s2 s3 s4 s5 s6 s7 s8 s9 s10 where
    1: "strip_prefix (js ''<'' @ nm) s = Some s1" and
    2: "ws_plus s1 = Some s2" and
    3: "strip_prefix (js ''key='' @ [dquote]) s2 = Some s3" and
    4: "group_plus s3 = Some (k, s4)" and
    5: "strip_prefix [dquote] s4 = Some s5" and
    6: "ws_plus s5 = Some s6" and
    7: "strip_prefix (js ''value='' @ [dquote]) s6 = Some s7" and
    8: "group_star s7 = Some (v, s8)" and
    9: "strip_prefix [dquote] s8 = Some s9" and
    10: "ws_star s9 = Some s10" and
    11: "strip_prefix (js ''/>'') s10 = Some rest"
    unfolding exec_at_def by (auto simp: bind_eq_Some_conv)
  have "length rest \<le> length s10" using 11 by (simp add: strip_prefix_Some)
  also have "\<dots> \<le> length s9" using 10 by (auto simp: ws_star_def length_dropWhile_le)
  also have "\<dots> \<le> length s8" using 9 by (simp add: strip_prefix_Some)
  also have "\<dots> \<le> length s7" using 8 by (auto simp: group_star_def length_dropWhile_le)
  also have "\<dots> \<le> length s6" using 7 by (simp add: strip_prefix_Some)
  also have "\<dots> \<le> length s5"
    using 6 by (auto simp: ws_plus_def length_dropWhile_le split: if_splits)
  also have "\<dots> \<le> length s4" using 5 by (simp add: strip_prefix_Some)
  also have "\<dots> \<le> length s3"
    using 4 by (auto simp: group_plus_def length_dropWhile_le split: if_splits)
  also have "\<dots> \<le> length s2" using 3 by (simp add: strip_prefix_Some)
  also have "\<dots> \<le> length s1"
    using 2 by (auto simp: ws_plus_def length_dropWhile_le split: if_splits)
  also have "\<dots> < length s" using 1 by (simp add: strip_prefix_Some js_def)
  finally show ?thesis .
qed

text \<open>
  The iteration of \<open>String.prototype.matchAll\<close> over a global pattern: the pattern is tried
  at each position from \<open>lastIndex\<close> on, the leftmost match is reported with its captures,
  and the search goes on at the end of that match (a match of these patterns is never
  empty).
\<close>

function scan :: "jsstring \<Rightarrow> jsstring \<Rightarrow> (jsstring \<times> jsstring) list" where
  "scan nm [] = []"
| "scan nm (c # cs) =
     (case exec_at nm (c # cs) of
        Some (k, v, rest) \<Rightarrow> (k, v) # scan nm rest
      | None \<Rightarrow> scan nm cs)"
  by pat_completeness auto
termination
  by (relation "measure (\<lambda>(nm, s). length s)") (auto dest: exec_at_shorter)

text \<open>\<open>matchAll\<close> throws a TypeError when the pattern lacks the \<open>g\<close> flag.\<close>

datatype error = TypeError

definition matchAll :: "regex \<Rightarrow> jsstring \<Rightarrow> error + (jsstring \<times> jsstring) list" where
  "matchAll r s = (if global r then Inr (scan (tag_name r) s) else Inl TypeError)"

section \<open>Objects used as string-keyed records\<close>

text \<open>
  A \<open>Record<string, string>\<close> is a plain object; the model keeps its own enumerable
  properties in insertion order. The assignment \<open>obj[k] = v\<close> on an object whose prototype
  is \<open>Object.prototype\<close> updates or appends the own property \<open>k\<close>, for every key but
  \<open>__proto__\<close>: that key is an accessor of \<open>Object.prototype\<close>, whose setter changes the
  prototype when \<open>v\<close> is an object or null and does nothing for any other \<open>v\<close>. With a
  string \<open>v\<close> the assignment leaves the object as it was.
\<close>

type_synonym params = "(jsstring \<times> jsstring) list"

definition proto_key :: jsstring where
  "proto_key = js ''__proto__''"

definition assign_string :: "params \<Rightarrow> jsstring \<Rightarrow> jsstring \<Rightarrow> params" where
  "assign_string obj k v = (if k = proto_key then obj else AList.update k v obj)"

text \<open>The loop \<open>for (const match of ms) obj[match[1]] = match[2]\<close>.\<close>

definition record_matches :: "(jsstring \<times> jsstring) list \<Rightarrow> params \<Rightarrow> params" where
  "record_matches ms obj = fold (\<lambda>(k, v) acc. assign_string acc k v) ms obj"

section \<open>parseStepLogs\<close>

record ParsedStepLogs =
  stepParameters :: params
  jobParameters :: params
  workflowParameters :: params

definition parseStepLogs :: "jsstring \<Rightarrow> error + ParsedStepLogs" where
  "parseStepLogs logs =
     (case matchAll SPAN_PARAM_REGEX logs of Inl e \<Rightarrow> Inl e | Inr spans \<Rightarrow>
      case matchAll STEP_PARAM_REGEX logs of Inl e \<Rightarrow> Inl e | Inr explicits \<Rightarrow>
      case matchAll JOB_PARAM_REGEX logs of Inl e \<Rightarrow> Inl e | Inr jobs \<Rightarrow>
      case matchAll WORKFLOW_PARAM_REGEX logs of Inl e \<Rightarrow> Inl e | Inr workflows \<Rightarrow>
      Inr \<lparr>stepParameters = record_matches explicits (record_matches spans []),
           jobParameters = record_matches jobs [],
           workflowParameters = record_matches workflows []\<rparr>)"

section \<open>parseJobLogs\<close>

text \<open>
  A step descriptor. The function reads the length of the step list only; the fields are
  never read, so the type of \<open>number\<close> does not matter here.
\<close>

record Step =
  name :: jsstring
  number :: int

text \<open>
  The call \<open>core.debug(`Parsed ${n} step parameters for step ${i}`)\<close> writes a line to the
  standard output of the action. The model keeps the two interpolated values of each
  message, in the order of the calls.
\<close>

datatype debug_message = ParsedStepParameters nat int

text \<open>\<open>line.match(/##\[group\]/)\<close> is not null exactly when the line contains the literal.\<close>

fun contains :: "jsstring \<Rightarrow> jsstring \<Rightarrow> bool" where
  "contains pat [] = (pat = [])"
| "contains pat (c # cs) = (strip_prefix pat (c # cs) \<noteq> None \<or> contains pat cs)"

definition isStepStart :: "jsstring \<Rightarrow> bool" where
  "isStepStart line = contains (js ''##[group]'') line"

text \<open>\<open>jobLog.split("\n")\<close> and \<open>lines.join("\n")\<close>.\<close>

fun split_lines :: "jsstring \<Rightarrow> jsstring list" where
  "split_lines [] = [[]]"
| "split_lines (c # cs) =
     (if c = newline then [] # split_lines cs
      else (case split_lines cs of l # ls \<Rightarrow> (c # l) # ls | [] \<Rightarrow> [[c]]))"

fun join_lines :: "jsstring list \<Rightarrow> jsstring" where
  "join_lines [] = []"
| "join_lines [l] = l"
| "join_lines (l # ls) = l @ newline # join_lines ls"

text \<open>
  The \<open>Map<number, ParsedStepLogs>\<close> keeps its entries in insertion order; \<open>set\<close> replaces the
  value of a key that is present and appends a new key, as \<open>AList.update\<close> does.
\<close>

type_synonym step_map = "(int \<times> ParsedStepLogs) list"

record job_state =
  stepLogs :: step_map
  currentStepNumber :: int
  currentStepLogs :: "jsstring list"
  debugLog :: "debug_message list"

text \<open>
  The block guarded by \<open>currentStepNumber >= 0 && currentStepLogs.length > 0\<close>, which stands
  twice in the source: inside the loop and after it.
\<close>

definition save_step :: "job_state \<Rightarrow> error + job_state" where
  "save_step st =
     (if currentStepNumber st \<ge> 0 \<and> length (currentStepLogs st) > 0 then
        (case parseStepLogs (join_lines (currentStepLogs st)) of
           Inl e \<Rightarrow> Inl e
         | Inr p \<Rightarrow>
             let m = AList.update (currentStepNumber st) p (stepLogs st);
                 n = (case map_of m (currentStepNumber st) of
                        Some q \<Rightarrow> length (stepParameters q)
                      | None \<Rightarrow> 0)
             in Inr (st\<lparr>stepLogs := m,
                        debugLog := debugLog st @ [ParsedStepParameters n (currentStepNumber st)]\<rparr>))
      else Inr st)"

text \<open>The body of the loop over the lines.\<close>

definition process_line :: "job_state \<Rightarrow> jsstring \<Rightarrow> error + job_state" where
  "process_line st line =
     (if isStepStart line then
        (case save_step st of
           Inl e \<Rightarrow> Inl e
         | Inr st' \<Rightarrow>
             Inr (st'\<lparr>currentStepNumber := currentStepNumber st' + 1, currentStepLogs := [line]\<rparr>))
      else Inr (st\<lparr>currentStepLogs := currentStepLogs st @ [line]\<rparr>))"

fun process_lines :: "job_state \<Rightarrow> jsstring list \<Rightarrow> error + job_state" where
  "process_lines st [] = Inr st"
| "process_lines st (l # ls) =
     (case process_line st l of Inl e \<Rightarrow> Inl e | Inr st' \<Rightarrow> process_lines st' ls)"

text \<open>
  \<open>!jobLog\<close> holds for the empty string only. The result is the map together with the debug
  messages written.
\<close>

definition parseJobLogs :: "jsstring \<Rightarrow> Step list \<Rightarrow> error + (step_map \<times> debug_message list)" where
  "parseJobLogs jobLog step_list =
     (if jobLog = [] \<or> length step_list = 0 then Inr ([], [])
      else
        (case process_lines
                \<lparr>stepLogs = [], currentStepNumber = - 1, currentStepLogs = [], debugLog = []\<rparr>
                (split_lines jobLog) of
           Inl e \<Rightarrow> Inl e
         | Inr st \<Rightarrow>
             (case save_step st of
                Inl e \<Rightarrow> Inl e
              | Inr st' \<Rightarrow> Inr (stepLogs st', debugLog st'))))"

section \<open>mergeSpanParameters\<close>

text \<open>
  \<open>SpanParameters\<close>. The \<open>steps\<close> object is assigned to by computed key, so the model keeps
  its prototype beside its own properties: \<open>None\<close> stands for \<open>Object.prototype\<close>, \<open>Some p\<close>
  for a plain object with the own properties \<open>p\<close> (whose prototype is \<open>Object.prototype\<close>).
  Lists of properties are in creation order; a lookup reads them through \<open>map_of\<close>.
\<close>

record steps_object =
  own :: "(jsstring \<times> params) list"
  proto :: "params option"

text \<open>
  A value handed over as \<open>SpanParameters\<close>. The loader returns \<open>JSON.parse(content)\<close> cast
  to the type without checking it, so at run time a field of a bundle may be missing:
  \<open>None\<close> stands for a field that is undefined (or null).
\<close>

record SpanParameters =
  workflow :: "params option"
  job :: "params option"
  steps :: "steps_object option"

text \<open>
  The local object \<open>merged\<close> is built by the function itself and always has its three
  fields.
\<close>

record merged_object =
  merged_workflow :: params
  merged_job :: params
  merged_steps :: steps_object

text \<open>
  The spread \<open>{...a, ...b}\<close> copies the own enumerable properties of each source in turn
  with CreateDataProperty, which defines an own property for every key, \<open>__proto__\<close>
  included: \<open>{...a, ...b}\<close> is \<open>copy_props (copy_props [] a) b\<close>.
\<close>

definition copy_props :: "params \<Rightarrow> params \<Rightarrow> params" where
  "copy_props target src = fold (\<lambda>(k, v) acc. AList.update k v acc) src target"

text \<open>
  The own enumerable properties of a string, as a spread sees them: the index \<open>i\<close> in
  decimal, mapped to the one-unit string at \<open>i\<close>.
\<close>

fun decimal :: "nat \<Rightarrow> jsstring" where
  "decimal n = (if n < 10 then [48 + of_nat n] else decimal (n div 10) @ [48 + of_nat (n mod 10)])"

definition string_entries :: "jsstring \<Rightarrow> params" where
  "string_entries s = zip (map decimal [0..<length s]) (map (\<lambda>c. [c]) s)"

text \<open>
  What \<open>{...merged.steps[k]}\<close> copies. The read finds an own property (a record of a step);
  or a property of the prototype object \<open>p\<close> (a string); or reaches \<open>Object.prototype\<close>,
  where \<open>__proto__\<close> is a getter that returns the prototype of \<open>merged.steps\<close> and any other
  key is a built-in function or undefined, neither of which has an enumerable property.
\<close>

definition spread_of_get :: "steps_object \<Rightarrow> jsstring \<Rightarrow> params" where
  "spread_of_get ob k =
     (case map_of (own ob) k of
        Some ps \<Rightarrow> ps
      | None \<Rightarrow>
          (case proto ob of
             None \<Rightarrow> []
           | Some p \<Rightarrow>
               (case map_of p k of
                  Some s \<Rightarrow> string_entries s
                | None \<Rightarrow> if k = proto_key then p else [])))"

text \<open>
  The assignment \<open>merged.steps[k] = v\<close> for an object \<open>v\<close>. An own property is updated. A key
  that is not an own one is looked up along the prototype chain: when the search ends at the
  \<open>__proto__\<close> accessor of \<open>Object.prototype\<close>, its setter makes \<open>v\<close> the prototype of
  \<open>merged.steps\<close> and no property is created; in every other case (a writable data property
  up the chain, or nothing) the own property \<open>k\<close> is created.
\<close>

definition steps_assign :: "steps_object \<Rightarrow> jsstring \<Rightarrow> params \<Rightarrow> steps_object" where
  "steps_assign ob k v =
     (if k = proto_key \<and> k \<notin> fst ` set (own ob) \<and>
         (case proto ob of None \<Rightarrow> True | Some p \<Rightarrow> k \<notin> fst ` set p)
      then ob\<lparr>proto := Some v\<rparr>
      else ob\<lparr>own := AList.update k v (own ob)\<rparr>)"

text \<open>
  A spread \<open>...x\<close> copies nothing when \<open>x\<close> is undefined or null; \<open>Object.entries(x)\<close>
  throws a TypeError for such an \<open>x\<close>, and is the list of the own properties otherwise.
\<close>

definition spread_source :: "params option \<Rightarrow> params" where
  "spread_source x = (case x of None \<Rightarrow> [] | Some ps \<Rightarrow> ps)"

definition object_entries :: "steps_object option \<Rightarrow> error + (jsstring \<times> params) list" where
  "object_entries x = (case x of None \<Rightarrow> Inl TypeError | Some ob \<Rightarrow> Inr (own ob))"

text \<open>The block \<open>if (logParams) { ... }\<close> and the block \<open>if (artifactParams) { ... }\<close>.\<close>

definition apply_log :: "merged_object \<Rightarrow> SpanParameters \<Rightarrow> error + merged_object" where
  "apply_log merged logParams =
     (case object_entries (steps logParams) of
        Inl e \<Rightarrow> Inl e
      | Inr es \<Rightarrow>
          Inr \<lparr>merged_workflow = copy_props [] (spread_source (workflow logParams)),
               merged_job = copy_props [] (spread_source (job logParams)),
               merged_steps =
                 fold (\<lambda>(stepName, stepParams) st. steps_assign st stepName (copy_props [] stepParams))
                   es (merged_steps merged)\<rparr>)"

definition apply_artifact :: "merged_object \<Rightarrow> SpanParameters \<Rightarrow> error + merged_object" where
  "apply_artifact merged artifactParams =
     (case object_entries (steps artifactParams) of
        Inl e \<Rightarrow> Inl e
      | Inr es \<Rightarrow>
          Inr \<lparr>merged_workflow =
                 copy_props (copy_props [] (merged_workflow merged))
                   (spread_source (workflow artifactParams)),
               merged_job =
                 copy_props (copy_props [] (merged_job merged)) (spread_source (job artifactParams)),
               merged_steps =
                 fold (\<lambda>(stepName, stepParams) st.
                         steps_assign st stepName
                           (copy_props (copy_props [] (spread_of_get st stepName)) stepParams))
                   es (merged_steps merged)\<rparr>)"

text \<open>The two arguments are \<open>SpanParameters | null\<close>; \<open>None\<close> is null.\<close>

definition mergeSpanParameters :: "SpanParameters option \<Rightarrow> SpanParameters option \<Rightarrow> error + SpanParameters" where
  "mergeSpanParameters artifactParams logParams =
     (let merged = \<lparr>merged_workflow = [], merged_job = [],
                     merged_steps = \<lparr>own = [], proto = None\<rparr>\<rparr>
      in case (case logParams of None \<Rightarrow> Inr merged | Some lp \<Rightarrow> apply_log merged lp) of
           Inl e \<Rightarrow> Inl e
         | Inr merged \<Rightarrow>
             (case (case artifactParams of None \<Rightarrow> Inr merged | Some ap \<Rightarrow> apply_artifact merged ap) of
                Inl e \<Rightarrow> Inl e
              | Inr merged \<Rightarrow>
                  Inr \<lparr>workflow = Some (merged_workflow merged), job = Some (merged_job merged),
                       steps = Some (merged_steps merged)\<rparr>))"

section \<open>Notions of the specification\<close>

text \<open>
  The statements below speak of the well-formed tags of a text and of the segments of a
  log. A well-formed tag of shape \<open>nm\<close> is a word of the language of the pattern, read off
  the regular expression: \<open><nm\<close>, one or more white-space characters, \<open>key="\<close>, a
  non-empty key without a double quote, \<open>"\<close>, one or more white-space characters,
  \<open>value="\<close>, a value without a double quote, \<open>"\<close>, any white space, \<open>/>\<close>.
\<close>

definition tag_text :: "jsstring \<Rightarrow> jsstring \<Rightarrow> jsstring \<Rightarrow> jsstring \<Rightarrow> jsstring \<Rightarrow> jsstring \<Rightarrow> jsstring" where
  "tag_text nm ws1 k ws2 v ws3 =
     js ''<'' @ nm @ ws1 @ js ''key='' @ [dquote] @ k @ [dquote] @ ws2 @
     js ''value='' @ [dquote] @ v @ [dquote] @ ws3 @ js ''/>''"

definition well_formed_tag :: "jsstring \<Rightarrow> jsstring \<Rightarrow> jsstring \<Rightarrow> jsstring \<Rightarrow> bool" where
  "well_formed_tag nm w k v \<longleftrightarrow>
     (\<exists>ws1 ws2 ws3. w = tag_text nm ws1 k ws2 v ws3 \<and>
        ws1 \<noteq> [] \<and> ws2 \<noteq> [] \<and>
        (\<forall>c \<in> set ws1. isSpace c) \<and> (\<forall>c \<in> set ws2. isSpace c) \<and> (\<forall>c \<in> set ws3. isSpace c) \<and>
        k \<noteq> [] \<and> dquote \<notin> set k \<and> dquote \<notin> set v)"

text \<open>
  The text of \<open>t\<close> from position \<open>i\<close> up to position \<open>j\<close> is a well-formed tag of shape
  \<open>nm\<close> with key \<open>k\<close> and value \<open>v\<close>.
\<close>

definition occurrence :: "jsstring \<Rightarrow> jsstring \<Rightarrow> nat \<Rightarrow> nat \<Rightarrow> jsstring \<Rightarrow> jsstring \<Rightarrow> bool" where
  "occurrence nm t i j k v \<longleftrightarrow>
     i \<le> j \<and> j \<le> length t \<and> well_formed_tag nm (take (j - i) (drop i t)) k v"

text \<open>No well-formed tag of shape \<open>nm\<close> that starts before position \<open>i\<close> reaches beyond it.\<close>

definition clear_before :: "jsstring \<Rightarrow> jsstring \<Rightarrow> nat \<Rightarrow> bool" where
  "clear_before nm t i \<longleftrightarrow>
     (\<forall>i' j' k' v'. occurrence nm t i' j' k' v' \<and> i' < i \<longrightarrow> j' \<le> i)"

text \<open>
  Every line that contains the marker starts a segment, which runs up to the next such
  line; the lines before the first marker belong to no segment.
\<close>

function segments :: "jsstring list \<Rightarrow> jsstring list list" where
  "segments [] = []"
| "segments (l # ls) =
     (if isStepStart l
      then (l # takeWhile (\<lambda>x. \<not> isStepStart x) ls) # segments (dropWhile (\<lambda>x. \<not> isStepStart x) ls)
      else segments ls)"
  by pat_completeness auto
termination
  by (relation "measure length") (auto simp: le_imp_less_Suc length_dropWhile_le)

text \<open>The message written for an entry of the map.\<close>

definition message_of :: "int \<times> ParsedStepLogs \<Rightarrow> debug_message" where
  "message_of e = ParsedStepParameters (length (stepParameters (snd e))) (fst e)"

text \<open>The entries of the map for a list of segments, numbered from \<open>c\<close> on.\<close>

fun entries :: "nat \<Rightarrow> jsstring list list \<Rightarrow> step_map" where
  "entries c [] = []"
| "entries c (s # ss) = (int c, projr (parseStepLogs (join_lines s))) # entries (Suc c) ss"

text \<open>The loop over the lines followed by the block after it.\<close>

definition finish :: "job_state \<Rightarrow> jsstring list \<Rightarrow> error + (step_map \<times> debug_message list)" where
  "finish st ls =
     (case process_lines st ls of
        Inl e \<Rightarrow> Inl e
      | Inr st' \<Rightarrow>
          (case save_step st' of
             Inl e \<Rightarrow> Inl e
           | Inr st'' \<Rightarrow> Inr (stepLogs st'', debugLog st'')))"

text \<open>
  A complete bundle whose objects have unique keys, whose \<open>steps\<close> object has the default
  prototype and no step named \<open>__proto__\<close>.
\<close>

definition plain_bundle :: "SpanParameters \<Rightarrow> bool" where
  "plain_bundle x =
     (case (workflow x, job x, steps x) of
        (Some w, Some j, Some st) \<Rightarrow>
          distinct (map fst w) \<and> distinct (map fst j) \<and> distinct (map fst (own st)) \<and>
          list_all (\<lambda>e. distinct (map fst (snd e))) (own st) \<and>
          proto st = None \<and> proto_key \<notin> fst ` set (own st)
      | _ \<Rightarrow> False)"

text \<open>An argument that is absent or has a \<open>steps\<close> object.\<close>

definition has_steps :: "SpanParameters option \<Rightarrow> bool" where
  "has_steps x = (case x of None \<Rightarrow> True | Some b \<Rightarrow> steps b \<noteq> None)"

text \<open>
  The keys that an argument has in a scope: none when the argument is absent or the field
  is missing.
\<close>

definition keys_of :: "(SpanParameters \<Rightarrow> params option) \<Rightarrow> SpanParameters option \<Rightarrow> jsstring set" where
  "keys_of field x = (case x of None \<Rightarrow> {} | Some b \<Rightarrow> fst ` set (spread_source (field b)))"

section \<open>Lemmas\<close>

subsection \<open>One attempt of a pattern accepts the well-formed tags\<close>

lemma takeWhile_stop: "\<forall>x\<in>set xs. P x \<Longrightarrow> \<not> P y \<Longrightarrow> takeWhile P (xs @ y # ys) = xs"
  by (induction xs) auto

lemma dropWhile_stop: "\<forall>x\<in>set xs. P x \<Longrightarrow> \<not> P y \<Longrightarrow> dropWhile P (xs @ y # ys) = y # ys"
  by (induction xs) auto

lemma while_stop:
  assumes "\<forall>x\<in>set xs. P x" and "ys = [] \<or> \<not> P (hd ys)"
  shows "takeWhile P (xs @ ys) = xs" and "dropWhile P (xs @ ys) = ys"
  using assms by (cases ys; simp add: takeWhile_stop dropWhile_stop)+

lemma while_split:
  "takeWhile P s = a \<and> dropWhile P s = r \<longleftrightarrow>
     ((\<forall>x\<in>set a. P x) \<and> s = a @ r \<and> (r = [] \<or> \<not> P (hd r)))"
  (is "?L = ?R")
proof
  assume l: ?L
  have "\<forall>x\<in>set (takeWhile P s). P x" by (auto dest: set_takeWhileD)
  moreover have "dropWhile P s = [] \<or> \<not> P (hd (dropWhile P s))"
    using hd_dropWhile[of P s] by auto
  moreover have "s = takeWhile P s @ dropWhile P s" by simp
  ultimately show ?R unfolding l[THEN conjunct1] l[THEN conjunct2] by blast
next
  assume r: ?R
  then have s: "s = a @ r" by blast
  show ?L unfolding s using while_stop[of a P r] r by blast
qed

lemma ws_plus_Some:
  "ws_plus s = Some r \<longleftrightarrow>
     (\<exists>ws. ws \<noteq> [] \<and> (\<forall>c\<in>set ws. isSpace c) \<and> s = ws @ r \<and> (r = [] \<or> \<not> isSpace (hd r)))"
proof -
  have "ws_plus s = Some r \<longleftrightarrow>
          (\<exists>ws. ws \<noteq> [] \<and> takeWhile isSpace s = ws \<and> dropWhile isSpace s = r)"
    by (auto simp: ws_plus_def)
  then show ?thesis unfolding while_split by blast
qed

lemma ws_star_Some:
  "ws_star s = Some r \<longleftrightarrow>
     (\<exists>ws. (\<forall>c\<in>set ws. isSpace c) \<and> s = ws @ r \<and> (r = [] \<or> \<not> isSpace (hd r)))"
proof -
  have "ws_star s = Some r \<longleftrightarrow> (\<exists>ws. takeWhile isSpace s = ws \<and> dropWhile isSpace s = r)"
    by (auto simp: ws_star_def)
  then show ?thesis unfolding while_split by blast
qed

lemma group_plus_Some:
  "group_plus s = Some (k, r) \<longleftrightarrow>
     (k \<noteq> [] \<and> dquote \<notin> set k \<and> s = k @ r \<and> (r = [] \<or> hd r = dquote))"
proof -
  have "group_plus s = Some (k, r) \<longleftrightarrow>
          (k \<noteq> [] \<and> takeWhile notQuote s = k \<and> dropWhile notQuote s = r)"
    by (auto simp: group_plus_def)
  then show ?thesis unfolding while_split by (auto simp: notQuote_def)
qed

lemma group_star_Some:
  "group_star s = Some (v, r) \<longleftrightarrow> (dquote \<notin> set v \<and> s = v @ r \<and> (r = [] \<or> hd r = dquote))"
proof -
  have "group_star s = Some (v, r) \<longleftrightarrow> (takeWhile notQuote s = v \<and> dropWhile notQuote s = r)"
    by (auto simp: group_star_def)
  then show ?thesis unfolding while_split by (auto simp: notQuote_def)
qed

lemma not_space_literals:
  "\<not> isSpace (hd (js ''key='' @ x))" "\<not> isSpace (hd (js ''value='' @ x))"
  "\<not> isSpace (hd (js ''/>'' @ x))"
  by (simp_all add: js_def isSpace_def)

lemma exec_at_complete:
  assumes ws: "ws1 \<noteq> []" "ws2 \<noteq> []" "\<forall>c \<in> set ws1. isSpace c" "\<forall>c \<in> set ws2. isSpace c"
      "\<forall>c \<in> set ws3. isSpace c"
    and kv: "k \<noteq> []" "dquote \<notin> set k" "dquote \<notin> set v"
  shows "exec_at nm (tag_text nm ws1 k ws2 v ws3 @ rest) = Some (k, v, rest)"
proof -
  define s10 where "s10 = js ''/>'' @ rest"
  define s9 where "s9 = ws3 @ s10"
  define s8 where "s8 = [dquote] @ s9"
  define s7 where "s7 = v @ s8"
  define s6 where "s6 = (js ''value='' @ [dquote]) @ s7"
  define s5 where "s5 = ws2 @ s6"
  define s4 where "s4 = [dquote] @ s5"
  define s3 where "s3 = k @ s4"
  define s2 where "s2 = (js ''key='' @ [dquote]) @ s3"
  define s1 where "s1 = ws1 @ s2"
  have s: "tag_text nm ws1 k ws2 v ws3 @ rest = (js ''<'' @ nm) @ s1"
    by (simp add: tag_text_def s1_def s2_def s3_def s4_def s5_def s6_def s7_def s8_def
        s9_def s10_def)
  have 1: "strip_prefix (js ''<'' @ nm) ((js ''<'' @ nm) @ s1) = Some s1"
    by (rule strip_prefix_append)
  have 2: "ws_plus s1 = Some s2"
    unfolding ws_plus_Some using ws not_space_literals(1) by (auto simp: s1_def s2_def)
  have 3: "strip_prefix (js ''key='' @ [dquote]) s2 = Some s3"
    unfolding s2_def by (rule strip_prefix_append)
  have 4: "group_plus s3 = Some (k, s4)"
    unfolding group_plus_Some using kv by (simp add: s3_def s4_def)
  have 5: "strip_prefix [dquote] s4 = Some s5"
    unfolding s4_def by (rule strip_prefix_append)
  have 6: "ws_plus s5 = Some s6"
    unfolding ws_plus_Some using ws not_space_literals(2) by (auto simp: s5_def s6_def)
  have 7: "strip_prefix (js ''value='' @ [dquote]) s6 = Some s7"
    unfolding s6_def by (rule strip_prefix_append)
  have 8: "group_star s7 = Some (v, s8)"
    unfolding group_star_Some using kv by (simp add: s7_def s8_def)
  have 9: "strip_prefix [dquote] s8 = Some s9"
    unfolding s8_def by (rule strip_prefix_append)
  have 10: "ws_star s9 = Some s10"
    unfolding ws_star_Some using ws not_space_literals(3) by (auto simp: s9_def s10_def)
  have 11: "strip_prefix (js ''/>'') s10 = Some rest"
    unfolding s10_def by (rule strip_prefix_append)
  show ?thesis
    unfolding s exec_at_def 1 Option.bind.simps 2 3 4 5 6 7 8 9 10 11 prod.case ..
qed

lemma exec_at_sound:
  assumes "exec_at nm s = Some (k, v, rest)"
  shows "\<exists>w. s = w @ rest \<and> well_formed_tag nm w k v"
proof -
  from assms obtain s1 s2 s3 s4 s5 s6 s7 s8 s9 s10 where
    1: "strip_prefix (js ''<'' @ nm) s = Some s1" and
    2: "ws_plus s1 = Some s2" and
    3: "strip_prefix (js ''key='' @ [dquote]) s2 = Some s3" and
    4: "group_plus s3 = Some (k, s4)" and
    5: "strip_prefix [dquote] s4 = Some s5" and
    6: "ws_plus s5 = Some s6" and
    7: "strip_prefix (js ''value='' @ [dquote]) s6 = Some s7" and
    8: "group_star s7 = Some (v, s8)" and
    9: "strip_prefix [dquote] s8 = Some s9" and
    10: "ws_star s9 = Some s10" and
    11: "strip_prefix (js ''/>'') s10 = Some rest"
    unfolding exec_at_def by (auto simp: bind_eq_Some_conv)
  from 2 obtain ws1 where w1: "ws1 \<noteq> []" "\<forall>c\<in>set ws1. isSpace c" "s1 = ws1 @ s2"
    unfolding ws_plus_Some by blast
  from 6 obtain ws2 where w2: "ws2 \<noteq> []" "\<forall>c\<in>set ws2. isSpace c" "s5 = ws2 @ s6"
    unfolding ws_plus_Some by blast
  from 10 obtain ws3 where w3: "\<forall>c\<in>set ws3. isSpace c" "s9 = ws3 @ s10"
    unfolding ws_star_Some by blast
  from 4 have k: "k \<noteq> []" "dquote \<notin> set k" "s3 = k @ s4"
    unfolding group_plus_Some by blast+
  from 8 have v: "dquote \<notin> set v" "s7 = v @ s8"
    unfolding group_star_Some by blast+
  have "s = tag_text nm ws1 k ws2 v ws3 @ rest"
    using 1 3 5 7 9 11 w1(3) w2(3) w3(2) k(3) v(2)
    by (simp add: strip_prefix_Some tag_text_def)
  moreover have "well_formed_tag nm (tag_text nm ws1 k ws2 v ws3) k v"
    unfolding well_formed_tag_def using w1 w2 w3 k v by blast
  ultimately show ?thesis by blast
qed

lemma exec_at_iff:
  "exec_at nm s = Some (k, v, rest) \<longleftrightarrow> (\<exists>w. s = w @ rest \<and> well_formed_tag nm w k v)"
  by (auto simp: well_formed_tag_def exec_at_complete dest: exec_at_sound)

subsection \<open>Recording the matches\<close>

lemma parseStepLogs_eq:
  "parseStepLogs logs =
     Inr \<lparr>stepParameters = record_matches (scan (js ''step-parameter'') logs)
                               (record_matches (scan (js ''span-parameter'') logs) []),
          jobParameters = record_matches (scan (js ''job-parameter'') logs) [],
          workflowParameters = record_matches (scan (js ''workflow-parameter'') logs) []\<rparr>"
  by (simp add: parseStepLogs_def matchAll_def SPAN_PARAM_REGEX_def STEP_PARAM_REGEX_def
      JOB_PARAM_REGEX_def WORKFLOW_PARAM_REGEX_def)

lemma map_of_record_matches:
  "map_of (record_matches ms obj) k =
     (if k = proto_key then map_of obj k
      else case map_of (rev ms) k of Some v \<Rightarrow> Some v | None \<Rightarrow> map_of obj k)"
proof (induction ms arbitrary: obj)
  case Nil
  show ?case by (simp add: record_matches_def)
next
  case (Cons m ms)
  obtain k' v' where m: "m = (k', v')" by (cases m)
  have step: "record_matches (m # ms) obj = record_matches ms (assign_string obj k' v')"
    by (simp add: record_matches_def m)
  show ?case
    unfolding step Cons.IH
    by (auto simp: assign_string_def update_conv' map_add_def m split: option.splits)
qed

lemma keys_record_matches:
  "fst ` set (record_matches ms obj) =
     fst ` set obj \<union> {k \<in> fst ` set ms. k \<noteq> proto_key}"
proof -
  have "k \<in> fst ` set (record_matches ms obj) \<longleftrightarrow>
          k \<in> fst ` set obj \<union> {k \<in> fst ` set ms. k \<noteq> proto_key}" for k
  proof -
    have "k \<notin> fst ` set (record_matches ms obj) \<longleftrightarrow>
            (k \<notin> fst ` set obj \<and> (k = proto_key \<or> k \<notin> fst ` set (rev ms)))"
      unfolding map_of_eq_None_iff[symmetric] map_of_record_matches
      by (auto split: option.splits)
    then show ?thesis by auto
  qed
  then show ?thesis by blast
qed

lemma distinct_record_matches:
  "distinct (map fst obj) \<Longrightarrow> distinct (map fst (record_matches ms obj))"
  by (induction ms arbitrary: obj)
     (auto simp: record_matches_def assign_string_def distinct_update)

subsection \<open>The scan finds well-formed tags only, and every one that is not overlapped\<close>

lemma scan_sound:
  "(k, v) \<in> set (scan nm t) \<Longrightarrow> \<exists>pre w post. t = pre @ w @ post \<and> well_formed_tag nm w k v"
proof (induction nm t rule: scan.induct)
  case (1 nm)
  then show ?case by simp
next
  case (2 nm c cs)
  show ?case
  proof (cases "exec_at nm (c # cs)")
    case None
    with 2 obtain pre w post where "cs = pre @ w @ post" "well_formed_tag nm w k v"
      by auto
    then have "c # cs = (c # pre) @ w @ post \<and> well_formed_tag nm w k v" by simp
    then show ?thesis by blast
  next
    case (Some r)
    obtain k' v' rest where r: "r = (k', v', rest)" by (cases r)
    from Some r obtain w' where w': "c # cs = w' @ rest" "well_formed_tag nm w' k' v'"
      using exec_at_sound by blast
    from 2(3) Some r have "(k, v) = (k', v') \<or> (k, v) \<in> set (scan nm rest)" by simp
    then show ?thesis
    proof
      assume "(k, v) = (k', v')"
      with w' have "c # cs = [] @ w' @ rest \<and> well_formed_tag nm w' k v" by simp
      then show ?thesis by blast
    next
      assume "(k, v) \<in> set (scan nm rest)"
      with 2(2)[OF Some r[symmetric]] obtain pre w post
        where "rest = pre @ w @ post" "well_formed_tag nm w k v" by blast
      with w' have "c # cs = (w' @ pre) @ w @ post \<and> well_formed_tag nm w k v" by simp
      then show ?thesis by blast
    qed
  qed
qed

lemma scan_key_nonempty: "(k, v) \<in> set (scan nm t) \<Longrightarrow> k \<noteq> []"
  by (auto dest!: scan_sound simp: well_formed_tag_def)

lemma exec_at_empty_key:
  assumes "\<forall>c \<in> set ws1. isSpace c"
  shows "exec_at nm (tag_text nm ws1 [] ws2 v ws3 @ rest) = None"
proof -
  define s3 where "s3 = dquote # ws2 @ js ''value='' @ [dquote] @ v @ [dquote] @ ws3 @ js ''/>'' @ rest"
  define s2 where "s2 = (js ''key='' @ [dquote]) @ s3"
  have s: "tag_text nm ws1 [] ws2 v ws3 @ rest = (js ''<'' @ nm) @ ws1 @ s2"
    by (simp add: tag_text_def s2_def s3_def)
  have g: "group_plus s3 = None"
    by (simp add: group_plus_def s3_def notQuote_def)
  have w: "ws_plus (ws1 @ s2) = None \<or> ws_plus (ws1 @ s2) = Some s2"
  proof (cases "ws1 = []")
    case True
    have "takeWhile isSpace s2 = []"
      using not_space_literals(1)[of "dquote # s3"] by (simp add: s2_def js_def)
    with True show ?thesis by (simp add: ws_plus_def)
  next
    case False
    have "s2 = [] \<or> \<not> isSpace (hd s2)"
      using not_space_literals(1)[of "dquote # s3"] by (simp add: s2_def)
    with assms False have "ws_plus (ws1 @ s2) = Some s2"
      unfolding ws_plus_Some by blast
    then show ?thesis ..
  qed
  have 3: "strip_prefix (js ''key='' @ [dquote]) s2 = Some s3"
    unfolding s2_def by (rule strip_prefix_append)
  have 1: "strip_prefix (js ''<'' @ nm) ((js ''<'' @ nm) @ ws1 @ s2) = Some (ws1 @ s2)"
    by (rule strip_prefix_append)
  from w show ?thesis
  proof
    assume a: "ws_plus (ws1 @ s2) = None"
    show ?thesis unfolding s exec_at_def 1 Option.bind.simps a ..
  next
    assume a: "ws_plus (ws1 @ s2) = Some s2"
    show ?thesis unfolding s exec_at_def 1 Option.bind.simps a 3 g ..
  qed
qed

lemma occurrence_iff:
  "occurrence nm t i j k v \<longleftrightarrow>
     (\<exists>pre w post. t = pre @ w @ post \<and> length pre = i \<and> length pre + length w = j \<and>
        well_formed_tag nm w k v)"
  (is "?L = ?R")
proof
  assume l: ?L
  then have ij: "i \<le> j" "j \<le> length t" by (auto simp: occurrence_def)
  have "t = take i t @ take (j - i) (drop i t) @ drop j t"
    using ij by (metis add_diff_cancel_left' append_take_drop_id drop_drop le_Suc_ex add.commute)
  moreover have "length (take i t) = i" using ij by simp
  moreover have "length (take i t) + length (take (j - i) (drop i t)) = j" using ij by simp
  ultimately show ?R using l unfolding occurrence_def by blast
next
  assume ?R
  then obtain pre w post where
    t: "t = pre @ w @ post" and i: "length pre = i" and j: "length pre + length w = j"
    and wf: "well_formed_tag nm w k v" by blast
  have "take (j - i) (drop i t) = w" using t i j by auto
  with wf i j t show ?L by (auto simp: occurrence_def)
qed

lemma scan_complete_aux:
  assumes "t = pre @ w @ post" and "well_formed_tag nm w k v"
    and "\<And>pre' w' post' k' v'. t = pre' @ w' @ post' \<Longrightarrow> well_formed_tag nm w' k' v' \<Longrightarrow>
           length pre' < length pre \<Longrightarrow> length pre' + length w' \<le> length pre"
  shows "(k, v) \<in> set (scan nm t)"
  using assms
proof (induction nm t arbitrary: pre rule: scan.induct)
  case (1 nm)
  then have "w = []" by simp
  with 1(2) show ?case by (simp add: well_formed_tag_def tag_text_def js_def)
next
  case (2 nm c cs)
  show ?case
  proof (cases pre)
    case Nil
    with 2(3,4) have "exec_at nm (c # cs) = Some (k, v, post)"
      unfolding exec_at_iff by auto
    then show ?thesis by simp
  next
    case (Cons p pre2)
    with 2(3) have pc: "p = c" and cs: "cs = pre2 @ w @ post" by simp_all
    show ?thesis
    proof (cases "exec_at nm (c # cs)")
      case None
      have "(k, v) \<in> set (scan nm cs)"
      proof (rule 2(1)[OF None cs 2(4)])
        fix pre' w' post' k' v'
        assume a: "cs = pre' @ w' @ post'" "well_formed_tag nm w' k' v'" "length pre' < length pre2"
        have "length (c # pre') + length w' \<le> length pre"
          by (rule 2(5)[of "c # pre'" w' post' k' v']) (use a Cons in auto)
        with Cons show "length pre' + length w' \<le> length pre2" by simp
      qed
      with None show ?thesis by simp
    next
      case (Some r)
      obtain k' v' rest where r: "r = (k', v', rest)" by (cases r)
      from Some r obtain w' where w': "c # cs = w' @ rest" "well_formed_tag nm w' k' v'"
        using exec_at_sound by blast
      have le: "length w' \<le> length pre"
        using 2(5)[of "[]" w' rest k' v'] w' Cons by auto
      define pre3 where "pre3 = drop (length w') pre"
      have "take (length w') (c # cs) = take (length w') pre"
        unfolding 2(3) using le by simp
      then have "w' = take (length w') pre" unfolding w'(1) by simp
      then have pre: "pre = w' @ pre3" unfolding pre3_def by (metis append_take_drop_id)
      have rest: "rest = pre3 @ w @ post"
        using 2(3) w'(1) unfolding pre by simp
      have "(k, v) \<in> set (scan nm rest)"
      proof (rule 2(2)[OF Some r[symmetric] refl rest 2(4)])
        fix pre' w'' post' k'' v''
        assume a: "rest = pre' @ w'' @ post'" "well_formed_tag nm w'' k'' v''"
          "length pre' < length pre3"
        have "length (w' @ pre') + length w'' \<le> length pre"
          by (rule 2(5)[of "w' @ pre'" w'' post' k'' v'']) (use a w' pre in auto)
        with pre show "length pre' + length w'' \<le> length pre3" by simp
      qed
      with Some r show ?thesis by simp
    qed
  qed
qed

lemma scan_complete:
  assumes "occurrence nm t i j k v" and "clear_before nm t i"
  shows "(k, v) \<in> set (scan nm t)"
proof -
  from assms(1) obtain pre w post where
    t: "t = pre @ w @ post" and i: "length pre = i" and wf: "well_formed_tag nm w k v"
    unfolding occurrence_iff by blast
  show ?thesis
  proof (rule scan_complete_aux[OF t wf])
    fix pre' w' post' k' v'
    assume a: "t = pre' @ w' @ post'" "well_formed_tag nm w' k' v'" "length pre' < length pre"
    then have "occurrence nm t (length pre') (length pre' + length w') k' v'"
      unfolding occurrence_iff by blast
    with assms(2) a(3) i show "length pre' + length w' \<le> length pre"
      unfolding clear_before_def by blast
  qed
qed

lemma scan_sound_occurrence:
  "(k, v) \<in> set (scan nm t) \<Longrightarrow> \<exists>i j. occurrence nm t i j k v"
  unfolding occurrence_iff by (blast dest: scan_sound)

subsection \<open>A text that is one well-formed tag\<close>

lemma well_formed_tagI:
  assumes "ws1 \<noteq> []" "ws2 \<noteq> []" "\<forall>c \<in> set ws1. isSpace c" "\<forall>c \<in> set ws2. isSpace c"
    "\<forall>c \<in> set ws3. isSpace c" "k \<noteq> []" "dquote \<notin> set k" "dquote \<notin> set v"
  shows "well_formed_tag nm (tag_text nm ws1 k ws2 v ws3) k v"
  unfolding well_formed_tag_def using assms by blast

lemma scan_single_tag:
  assumes "well_formed_tag nm w k v"
  shows "scan nm w = [(k, v)]"
proof -
  from assms have e: "exec_at nm w = Some (k, v, [])"
    unfolding exec_at_iff by simp
  then have "w \<noteq> []" by (auto simp: exec_at_def js_def)
  then obtain c cs where "w = c # cs" by (cases w) auto
  with e show ?thesis by simp
qed

lemma space_not_quote: "isSpace c \<Longrightarrow> c \<noteq> dquote"
  by (auto simp: isSpace_def dquote_def)

lemma quote_split_unique:
  assumes "a @ dquote # b = a' @ dquote # b'" "dquote \<notin> set a" "dquote \<notin> set a'"
  shows "a = a' \<and> b = b'"
proof -
  have 1: "takeWhile notQuote (a @ dquote # b) = a \<and> dropWhile notQuote (a @ dquote # b) = dquote # b"
    unfolding while_split using assms(2) by (auto simp: notQuote_def)
  have 2: "takeWhile notQuote (a' @ dquote # b') = a' \<and> dropWhile notQuote (a' @ dquote # b') = dquote # b'"
    unfolding while_split using assms(3) by (auto simp: notQuote_def)
  have "a = a'" by (metis 1 2 assms(1))
  moreover have "dquote # b = dquote # b'" by (metis 1 2 assms(1))
  ultimately show ?thesis by blast
qed

lemma tag_text_quotes:
  assumes "dquote \<notin> set nm" "\<forall>c \<in> set ws1. isSpace c" "\<forall>c \<in> set ws2. isSpace c"
    "\<forall>c \<in> set ws3. isSpace c" "dquote \<notin> set k" "dquote \<notin> set v"
  shows "count_list (tag_text nm ws1 k ws2 v ws3) dquote = 4"
proof -
  have ws: "count_list ws dquote = 0" if "\<forall>c \<in> set ws. isSpace c" for ws
    using that space_not_quote by (auto simp: count_list_0_iff)
  have lit: "count_list (js ''<'') dquote = 0" "count_list (js ''key='') dquote = 0"
    "count_list (js ''value='') dquote = 0" "count_list (js ''/>'') dquote = 0"
    by (simp_all add: js_def dquote_def)
  show ?thesis
    using assms ws[of ws1] ws[of ws2] ws[of ws3]
    by (simp add: tag_text_def lit count_list_0_iff[THEN iffD2])
qed

lemma matches_in_single_tag:
  assumes wf: "well_formed_tag nm w k v" and wf': "well_formed_tag nm' w' k' v'"
    and w: "w = pre @ w' @ post" and nm: "dquote \<notin> set nm" "dquote \<notin> set nm'"
  shows "k' = k \<and> v' = v"
proof -
  from wf obtain ws1 ws2 ws3 where
    t: "w = tag_text nm ws1 k ws2 v ws3" and
    s: "\<forall>c \<in> set ws1. isSpace c" "\<forall>c \<in> set ws2. isSpace c" "\<forall>c \<in> set ws3. isSpace c" and
    q: "dquote \<notin> set k" "dquote \<notin> set v"
    unfolding well_formed_tag_def by blast
  from wf' obtain ws1' ws2' ws3' where
    t': "w' = tag_text nm' ws1' k' ws2' v' ws3'" and
    s': "\<forall>c \<in> set ws1'. isSpace c" "\<forall>c \<in> set ws2'. isSpace c" "\<forall>c \<in> set ws3'. isSpace c" and
    q': "dquote \<notin> set k'" "dquote \<notin> set v'"
    unfolding well_formed_tag_def by blast
  have c4: "count_list w dquote = 4" unfolding t by (rule tag_text_quotes[OF nm(1) s q])
  have c4': "count_list w' dquote = 4" unfolding t' by (rule tag_text_quotes[OF nm(2) s' q'])
  have "count_list w dquote = count_list pre dquote + count_list w' dquote + count_list post dquote"
    unfolding w by simp
  with c4 c4' have pre: "dquote \<notin> set pre"
    by (simp add: count_list_0_iff[symmetric])
  have nq: "dquote \<notin> set ws" if "\<forall>c \<in> set ws. isSpace c" for ws
    using that space_not_quote by auto
  have litq: "dquote \<notin> set (js ''<'')" "dquote \<notin> set (js ''key='')" "dquote \<notin> set (js ''value='')"
    by (simp_all add: js_def dquote_def)
  define P where "P = js ''<'' @ nm @ ws1 @ js ''key=''"
  define P' where "P' = pre @ js ''<'' @ nm' @ ws1' @ js ''key=''"
  define M where "M = ws2 @ js ''value=''"
  define M' where "M' = ws2' @ js ''value=''"
  define R where "R = v @ dquote # ws3 @ js ''/>''"
  define R' where "R' = v' @ dquote # ws3' @ js ''/>'' @ post"
  have l: "w = P @ dquote # (k @ dquote # M @ dquote # R)"
    unfolding t tag_text_def P_def M_def R_def by simp
  have r: "pre @ w' @ post = P' @ dquote # (k' @ dquote # M' @ dquote # R')"
    unfolding t' tag_text_def P'_def M'_def R'_def by simp
  have e1: "P @ dquote # (k @ dquote # M @ dquote # R) = P' @ dquote # (k' @ dquote # M' @ dquote # R')"
    unfolding l[symmetric] r[symmetric] by (rule w)
  have Pq: "dquote \<notin> set P" "dquote \<notin> set P'"
    using nm pre litq nq[OF s(1)] nq[OF s'(1)] by (auto simp: P_def P'_def)
  from quote_split_unique[OF e1 Pq]
  have e2: "k @ dquote # (M @ dquote # R) = k' @ dquote # (M' @ dquote # R')" by simp
  from quote_split_unique[OF e2 q(1) q'(1)]
  have kk: "k = k'" and e3: "M @ dquote # R = M' @ dquote # R'" by simp_all
  have Mq: "dquote \<notin> set M" "dquote \<notin> set M'"
    using litq nq[OF s(2)] nq[OF s'(2)] by (auto simp: M_def M'_def)
  from quote_split_unique[OF e3 Mq]
  have e4: "v @ dquote # (ws3 @ js ''/>'') = v' @ dquote # (ws3' @ js ''/>'' @ post)"
    unfolding R_def R'_def by blast
  from quote_split_unique[OF e4 q(2) q'(2)] kk show ?thesis by simp
qed

lemma record_matches_same:
  assumes "set ms \<subseteq> {(k, v)}" "k \<noteq> proto_key"
  shows "record_matches ms [(k, v)] = [(k, v)]"
  using assms by (induction ms) (auto simp: record_matches_def assign_string_def)

lemma single_tag_other_shape:
  assumes "well_formed_tag nm w k v" "dquote \<notin> set nm" "dquote \<notin> set nm'"
  shows "set (scan nm' w) \<subseteq> {(k, v)}"
proof
  fix x assume x: "x \<in> set (scan nm' w)"
  obtain k' v' where kv: "x = (k', v')" by (cases x)
  with x obtain pre w' post where "w = pre @ w' @ post" "well_formed_tag nm' w' k' v'"
    using scan_sound by blast
  with matches_in_single_tag[OF assms(1) this(2) this(1) assms(2,3)] kv
  show "x \<in> {(k, v)}" by simp
qed

lemma record_matches_sound:
  "map_of (record_matches ms obj) k = Some v \<Longrightarrow> (k, v) \<in> set ms \<or> map_of obj k = Some v"
  unfolding map_of_record_matches
  by (auto split: if_splits option.splits dest: map_of_SomeD)

lemma record_matches_complete:
  "(k, v) \<in> set ms \<Longrightarrow> k \<noteq> proto_key \<Longrightarrow> k \<in> fst ` set (record_matches ms obj)"
  unfolding keys_record_matches by force

lemma tag_names [simp]:
  "tag_name SPAN_PARAM_REGEX = js ''span-parameter''"
  "tag_name STEP_PARAM_REGEX = js ''step-parameter''"
  "tag_name JOB_PARAM_REGEX = js ''job-parameter''"
  "tag_name WORKFLOW_PARAM_REGEX = js ''workflow-parameter''"
  by (simp_all add: SPAN_PARAM_REGEX_def STEP_PARAM_REGEX_def JOB_PARAM_REGEX_def
      WORKFLOW_PARAM_REGEX_def)

lemma well_formed_tag_hd: "well_formed_tag nm w k v \<Longrightarrow> \<exists>w'. w = js ''<'' @ w'"
  by (auto simp: well_formed_tag_def tag_text_def)

lemma regex_names_no_quote:
  "dquote \<notin> set (js ''span-parameter'')" "dquote \<notin> set (js ''step-parameter'')"
  "dquote \<notin> set (js ''job-parameter'')" "dquote \<notin> set (js ''workflow-parameter'')"
  by (simp_all add: js_def dquote_def)

text \<open>
  Within the step scope the last step-parameter match of a key gives its value, and the last
  span-parameter match where there is no step-parameter match, for every key but
  \<open>__proto__\<close>.
\<close>

lemma stepParameters_precedence:
  assumes "parseStepLogs t = Inr r" "k \<noteq> proto_key"
  shows "map_of (stepParameters r) k =
           (case map_of (rev (scan (tag_name STEP_PARAM_REGEX) t)) k of
              Some v \<Rightarrow> Some v
            | None \<Rightarrow> map_of (rev (scan (tag_name SPAN_PARAM_REGEX) t)) k)"
  using assms unfolding parseStepLogs_eq tag_names
  by (auto simp: map_of_record_matches split: option.splits)

subsection \<open>The closed form of parseJobLogs\<close>

lemma parseStepLogs_Inr: "parseStepLogs t = Inr (projr (parseStepLogs t))"
  by (simp add: parseStepLogs_eq)

lemma fst_entries: "map fst (entries c ss) = map int [c..<c + length ss]"
  by (induction ss arbitrary: c) (auto simp: upt_rec)

lemma snd_entries: "map (Inr \<circ> snd) (entries c ss) = map (parseStepLogs \<circ> join_lines) ss"
  by (induction ss arbitrary: c) (auto simp: parseStepLogs_Inr[symmetric])

lemma length_entries [simp]: "length (entries c ss) = length ss"
  by (induction ss arbitrary: c) auto

lemma update_fresh: "k \<notin> fst ` set al \<Longrightarrow> AList.update k v al = al @ [(k, v)]"
  by (induction al) auto

lemma map_of_fresh: "k \<notin> fst ` set al \<Longrightarrow> map_of (al @ [(k, v)]) k = Some v"
  by (induction al) auto

lemma save_step_active:
  assumes "currentStepNumber st = int c" "currentStepLogs st \<noteq> []"
    "map fst (stepLogs st) = map int [0..<c]"
  shows "save_step st =
           Inr (st\<lparr>stepLogs := stepLogs st @ entries c [currentStepLogs st],
                   debugLog := debugLog st @ map message_of (entries c [currentStepLogs st])\<rparr>)"
proof -
  have "fst ` set (stepLogs st) = set (map int [0..<c])"
    using assms(3) by (metis set_map)
  then have fresh: "int c \<notin> fst ` set (stepLogs st)" by auto
  define p where "p = projr (parseStepLogs (join_lines (currentStepLogs st)))"
  have p: "parseStepLogs (join_lines (currentStepLogs st)) = Inr p"
    unfolding p_def by (rule parseStepLogs_Inr)
  have e: "entries c [currentStepLogs st] = [(int c, p)]"
    by (simp add: p_def)
  show ?thesis
    unfolding save_step_def p e
    using assms(1,2) update_fresh[OF fresh] map_of_fresh[OF fresh]
    by (simp add: Let_def message_of_def)
qed

lemma save_step_idle: "currentStepNumber st < 0 \<Longrightarrow> save_step st = Inr st"
  by (simp add: save_step_def)

lemma finish_Cons:
  "process_line st l = Inr st' \<Longrightarrow> finish st (l # ls) = finish st' ls"
  by (simp add: finish_def)

lemma finish_active:
  assumes "currentStepNumber st = int c" "currentStepLogs st = cur" "cur \<noteq> []"
    "map fst (stepLogs st) = map int [0..<c]"
  shows "finish st ls =
           Inr (stepLogs st @
                  entries c ((cur @ takeWhile (\<lambda>x. \<not> isStepStart x) ls) #
                             segments (dropWhile (\<lambda>x. \<not> isStepStart x) ls)),
                debugLog st @
                  map message_of
                    (entries c ((cur @ takeWhile (\<lambda>x. \<not> isStepStart x) ls) #
                                segments (dropWhile (\<lambda>x. \<not> isStepStart x) ls))))"
  using assms
proof (induction ls arbitrary: st c cur)
  case Nil
  have "finish st [] =
          Inr (stepLogs st @ entries c [currentStepLogs st],
               debugLog st @ map message_of (entries c [currentStepLogs st]))"
    unfolding finish_def using save_step_active[of st c] Nil by simp
  with Nil show ?case by simp
next
  case (Cons l ls)
  show ?case
  proof (cases "isStepStart l")
    case True
    define e where "e = (int c, projr (parseStepLogs (join_lines cur)))"
    define st1 where
      "st1 = st\<lparr>stepLogs := stepLogs st @ [e], debugLog := debugLog st @ [message_of e],
                 currentStepNumber := int (Suc c), currentStepLogs := [l]\<rparr>"
    have sv: "save_step st =
        Inr (st\<lparr>stepLogs := stepLogs st @ [e], debugLog := debugLog st @ [message_of e]\<rparr>)"
      using save_step_active[of st c] Cons.prems by (simp add: e_def)
    have pl: "process_line st l = Inr st1"
      unfolding process_line_def sv using True Cons.prems(1) by (simp add: st1_def)
    have k: "map fst (stepLogs st1) = map int [0..<Suc c]"
      using Cons.prems(4) by (simp add: st1_def e_def)
    have ih: "finish st1 ls =
        Inr (stepLogs st1 @ entries (Suc c) (([l] @ takeWhile (\<lambda>x. \<not> isStepStart x) ls) #
                 segments (dropWhile (\<lambda>x. \<not> isStepStart x) ls)),
             debugLog st1 @ map message_of (entries (Suc c)
                 (([l] @ takeWhile (\<lambda>x. \<not> isStepStart x) ls) #
                 segments (dropWhile (\<lambda>x. \<not> isStepStart x) ls))))"
      by (rule Cons.IH[OF _ _ _ k]) (simp_all add: st1_def)
    show ?thesis
      unfolding finish_Cons[OF pl] ih using True by (simp add: st1_def e_def)
  next
    case False
    define st1 where "st1 = st\<lparr>currentStepLogs := cur @ [l]\<rparr>"
    have pl: "process_line st l = Inr st1"
      unfolding process_line_def using False Cons.prems(2) by (simp add: st1_def)
    have ih: "finish st1 ls =
        Inr (stepLogs st1 @ entries c (((cur @ [l]) @ takeWhile (\<lambda>x. \<not> isStepStart x) ls) #
                 segments (dropWhile (\<lambda>x. \<not> isStepStart x) ls)),
             debugLog st1 @ map message_of (entries c
                 (((cur @ [l]) @ takeWhile (\<lambda>x. \<not> isStepStart x) ls) #
                 segments (dropWhile (\<lambda>x. \<not> isStepStart x) ls))))"
      by (rule Cons.IH) (use Cons.prems in \<open>simp_all add: st1_def\<close>)
    show ?thesis
      unfolding finish_Cons[OF pl] ih using False by (simp add: st1_def)
  qed
qed

lemma finish_idle:
  assumes "currentStepNumber st = - 1" "stepLogs st = []" "debugLog st = []"
  shows "finish st ls = Inr (entries 0 (segments ls), map message_of (entries 0 (segments ls)))"
  using assms
proof (induction ls arbitrary: st)
  case Nil
  then show ?case by (simp add: finish_def save_step_idle)
next
  case (Cons l ls)
  show ?case
  proof (cases "isStepStart l")
    case True
    define st1 where "st1 = st\<lparr>currentStepNumber := 0, currentStepLogs := [l]\<rparr>"
    have pl: "process_line st l = Inr st1"
      unfolding process_line_def using True Cons.prems(1)
      by (simp add: save_step_idle st1_def)
    have "finish st1 ls =
        Inr (stepLogs st1 @ entries 0 (([l] @ takeWhile (\<lambda>x. \<not> isStepStart x) ls) #
                 segments (dropWhile (\<lambda>x. \<not> isStepStart x) ls)),
             debugLog st1 @ map message_of (entries 0
                 (([l] @ takeWhile (\<lambda>x. \<not> isStepStart x) ls) #
                 segments (dropWhile (\<lambda>x. \<not> isStepStart x) ls))))"
      by (rule finish_active) (use Cons.prems in \<open>simp_all add: st1_def\<close>)
    then show ?thesis
      unfolding finish_Cons[OF pl] using True Cons.prems by (simp add: st1_def)
  next
    case False
    define st1 where "st1 = st\<lparr>currentStepLogs := currentStepLogs st @ [l]\<rparr>"
    have pl: "process_line st l = Inr st1"
      unfolding process_line_def using False by (simp add: st1_def)
    have "finish st1 ls = Inr (entries 0 (segments ls), map message_of (entries 0 (segments ls)))"
      by (rule Cons.IH) (use Cons.prems in \<open>simp_all add: st1_def\<close>)
    then show ?thesis unfolding finish_Cons[OF pl] using False by simp
  qed
qed

lemma parseJobLogs_eq:
  "parseJobLogs jobLog step_list =
     (if jobLog = [] \<or> step_list = [] then Inr ([], [])
      else Inr (entries 0 (segments (split_lines jobLog)),
                map message_of (entries 0 (segments (split_lines jobLog)))))"
proof -
  let ?st = "\<lparr>stepLogs = [], currentStepNumber = - 1, currentStepLogs = [], debugLog = []\<rparr>"
  have "finish ?st (split_lines jobLog) =
      Inr (entries 0 (segments (split_lines jobLog)),
           map message_of (entries 0 (segments (split_lines jobLog))))"
    by (rule finish_idle) simp_all
  then show ?thesis unfolding parseJobLogs_def finish_def by simp
qed

lemma filter_dropWhile_not:
  "filter P (dropWhile (\<lambda>x. \<not> P x) ls) = filter P ls"
  by (induction ls) auto

lemma length_segments: "length (segments ls) = length (filter isStepStart ls)"
proof (induction ls rule: segments.induct)
  case 1
  show ?case by simp
next
  case (2 l ls)
  show ?case
  proof (cases "isStepStart l")
    case True
    with 2(1) show ?thesis by (simp add: filter_dropWhile_not)
  next
    case False
    with 2(2) show ?thesis by simp
  qed
qed

lemma concat_segments: "concat (segments ls) = dropWhile (\<lambda>x. \<not> isStepStart x) ls"
proof (induction ls rule: segments.induct)
  case 1
  show ?case by simp
next
  case (2 l ls)
  show ?case
  proof (cases "isStepStart l")
    case True
    with 2(1) show ?thesis by simp
  next
    case False
    with 2(2) show ?thesis by simp
  qed
qed

lemma segments_shape:
  "s \<in> set (segments ls) \<Longrightarrow>
     s \<noteq> [] \<and> isStepStart (hd s) \<and> (\<forall>x \<in> set (tl s). \<not> isStepStart x)"
proof (induction ls rule: segments.induct)
  case 1
  then show ?case by simp
next
  case (2 l ls)
  show ?case
  proof (cases "isStepStart l")
    case True
    with 2(3) have "s = l # takeWhile (\<lambda>x. \<not> isStepStart x) ls \<or>
        s \<in> set (segments (dropWhile (\<lambda>x. \<not> isStepStart x) ls))" by simp
    then show ?thesis
    proof
      assume "s = l # takeWhile (\<lambda>x. \<not> isStepStart x) ls"
      with True show ?thesis by (auto dest: set_takeWhileD)
    next
      assume "s \<in> set (segments (dropWhile (\<lambda>x. \<not> isStepStart x) ls))"
      with 2(1)[OF True] show ?thesis .
    qed
  next
    case False
    with 2(3) have "s \<in> set (segments ls)" by simp
    with 2(2)[OF False] show ?thesis .
  qed
qed

lemma isStepStart_Nil [simp]: "\<not> isStepStart []"
  by (simp add: isStepStart_def js_def)

lemma scan_without_lt:
  assumes "of_char CHR ''<'' \<notin> set t"
  shows "scan nm t = []"
  using assms
proof (induction nm t rule: scan.induct)
  case (1 nm)
  show ?case by simp
next
  case (2 nm c cs)
  have none: "exec_at nm (c # cs) = None"
  proof (rule ccontr)
    assume "exec_at nm (c # cs) \<noteq> None"
    then obtain k v rest where "exec_at nm (c # cs) = Some (k, v, rest)" by auto
    then obtain w where "c # cs = w @ rest" "well_formed_tag nm w k v"
      using exec_at_sound by blast
    then obtain w' where "c # cs = (js ''<'' @ w') @ rest"
      using well_formed_tag_hd by blast
    then have "c = of_char CHR ''<''" by (simp add: js_def)
    with 2(3) show False by simp
  qed
  from 2(3) have "of_char CHR ''<'' \<notin> set cs" by simp
  with 2(1)[OF none] none show ?case by simp
qed

subsection \<open>The merge away from the key \<open>__proto__\<close>\<close>

lemma map_of_rev_distinct: "distinct (map fst xs) \<Longrightarrow> map_of (rev xs) = map_of xs"
proof (induction xs)
  case Nil
  show ?case by simp
next
  case (Cons x xs)
  then have ih: "map_of (rev xs) = map_of xs" and fresh: "fst x \<notin> fst ` set xs" by auto
  have "map_of (rev (x # xs)) = map_of [x] ++ map_of xs"
    by (simp add: ih)
  also have "\<dots> = map_of (x # xs)"
  proof
    fix k
    have "map_of xs (fst x) = None" using fresh by (simp add: map_of_eq_None_iff)
    then show "(map_of [x] ++ map_of xs) k = map_of (x # xs) k"
      by (cases "map_of xs k") (auto simp: map_add_def)
  qed
  finally show ?case .
qed

lemma map_of_copy_props_gen:
  "map_of (copy_props t s) k = (case map_of (rev s) k of Some v \<Rightarrow> Some v | None \<Rightarrow> map_of t k)"
proof (induction s arbitrary: t)
  case Nil
  show ?case by (simp add: copy_props_def)
next
  case (Cons e s)
  obtain k' v' where e: "e = (k', v')" by (cases e)
  have step: "copy_props t (e # s) = copy_props (AList.update k' v' t) s"
    by (simp add: copy_props_def e)
  show ?case
    unfolding step Cons.IH
    by (auto simp: update_conv' map_add_def e split: option.splits)
qed

lemma map_of_copy_props:
  "distinct (map fst s) \<Longrightarrow> map_of (copy_props t s) = map_of t ++ map_of s"
  by (rule ext) (simp add: map_of_copy_props_gen map_of_rev_distinct map_add_def)

lemma copy_props_append:
  "distinct (map fst (t @ s)) \<Longrightarrow> copy_props t s = t @ s"
proof (induction s arbitrary: t)
  case Nil
  show ?case by (simp add: copy_props_def)
next
  case (Cons e s)
  obtain k v where e: "e = (k, v)" by (cases e)
  from Cons.prems have fresh: "k \<notin> fst ` set t" by (auto simp: e)
  have step: "copy_props t (e # s) = copy_props (t @ [(k, v)]) s"
    by (simp add: copy_props_def e update_fresh[OF fresh])
  from Cons.prems have "distinct (map fst ((t @ [(k, v)]) @ s))" by (simp add: e)
  from Cons.IH[OF this] show ?case unfolding step by (simp add: e)
qed

lemma copy_props_id: "distinct (map fst s) \<Longrightarrow> copy_props [] s = s"
  using copy_props_append[of "[]" s] by simp

lemma distinct_copy_props:
  "distinct (map fst t) \<Longrightarrow> distinct (map fst (copy_props t s))"
  by (induction s arbitrary: t) (auto simp: copy_props_def distinct_update)

lemma steps_assign_plain:
  "k \<noteq> proto_key \<Longrightarrow> steps_assign st k v = st\<lparr>own := AList.update k v (own st)\<rparr>"
  by (simp add: steps_assign_def)

lemma log_fold_plain:
  assumes "proto_key \<notin> fst ` set es" "distinct (map fst (own st @ es))"
    "\<forall>e \<in> set es. distinct (map fst (snd e))"
  shows "fold (\<lambda>(n, ps) st. steps_assign st n (copy_props [] ps)) es st = st\<lparr>own := own st @ es\<rparr>"
  using assms
proof (induction es arbitrary: st)
  case Nil
  show ?case by simp
next
  case (Cons e es)
  obtain n ps where e: "e = (n, ps)" by (cases e)
  from Cons.prems have n: "n \<noteq> proto_key" "n \<notin> fst ` set (own st)" "distinct (map fst ps)"
    by (auto simp: e)
  define st1 where "st1 = st\<lparr>own := own st @ [(n, ps)]\<rparr>"
  have s1: "steps_assign st n (copy_props [] ps) = st1"
    using n by (simp add: steps_assign_plain copy_props_id update_fresh st1_def)
  have "fold (\<lambda>(n, ps) st. steps_assign st n (copy_props [] ps)) es st1 = st1\<lparr>own := own st1 @ es\<rparr>"
    by (rule Cons.IH) (use Cons.prems in \<open>auto simp: st1_def e\<close>)
  then show ?case by (simp add: e s1 st1_def)
qed

lemma artifact_fold_plain:
  assumes "proto st = None" "proto_key \<notin> fst ` set es" "distinct (map fst es)"
  shows "proto (fold (\<lambda>(n, ps) st. steps_assign st n
                 (copy_props (copy_props [] (spread_of_get st n)) ps)) es st) = None \<and>
         map_of (own (fold (\<lambda>(n, ps) st. steps_assign st n
                 (copy_props (copy_props [] (spread_of_get st n)) ps)) es st)) k =
           (case map_of es k of
              None \<Rightarrow> map_of (own st) k
            | Some ps \<Rightarrow>
                Some (copy_props
                        (copy_props [] (case map_of (own st) k of Some q \<Rightarrow> q | None \<Rightarrow> [])) ps))"
  using assms
proof (induction es arbitrary: st)
  case Nil
  then show ?case by simp
next
  case (Cons e es)
  obtain n ps where e: "e = (n, ps)" by (cases e)
  from Cons.prems have n: "n \<noteq> proto_key" "n \<notin> fst ` set es" by (auto simp: e)
  define X where
    "X = copy_props (copy_props [] (case map_of (own st) n of Some q \<Rightarrow> q | None \<Rightarrow> [])) ps"
  define st1 where "st1 = st\<lparr>own := AList.update n X (own st)\<rparr>"
  have g: "spread_of_get st n = (case map_of (own st) n of Some q \<Rightarrow> q | None \<Rightarrow> [])"
    using Cons.prems(1) by (simp add: spread_of_get_def split: option.splits)
  have s1: "steps_assign st n (copy_props (copy_props [] (spread_of_get st n)) ps) = st1"
    unfolding g using n(1) by (simp add: steps_assign_plain st1_def X_def)
  have m1: "map_of (own st1) = (map_of (own st))(n \<mapsto> X)"
    by (simp add: st1_def update_conv')
  have ih: "proto (fold (\<lambda>(n, ps) st. steps_assign st n
                 (copy_props (copy_props [] (spread_of_get st n)) ps)) es st1) = None \<and>
         map_of (own (fold (\<lambda>(n, ps) st. steps_assign st n
                 (copy_props (copy_props [] (spread_of_get st n)) ps)) es st1)) k =
           (case map_of es k of
              None \<Rightarrow> map_of (own st1) k
            | Some ps \<Rightarrow>
                Some (copy_props
                        (copy_props [] (case map_of (own st1) k of Some q \<Rightarrow> q | None \<Rightarrow> [])) ps))"
    by (rule Cons.IH) (use Cons.prems in \<open>auto simp: st1_def e\<close>)
  have none: "map_of es n = None" using n(2) by (simp add: map_of_eq_None_iff)
  show ?case
  proof (cases "k = n")
    case True
    with ih none show ?thesis by (simp add: e s1 m1 X_def)
  next
    case False
    with ih show ?thesis by (simp add: e s1 m1 cong: option.case_cong)
  qed
qed

lemma artifact_fold_fresh:
  assumes "proto st = None" "proto_key \<notin> fst ` set es" "distinct (map fst (own st @ es))"
    "\<forall>e \<in> set es. distinct (map fst (snd e))"
  shows "fold (\<lambda>(n, ps) st. steps_assign st n
            (copy_props (copy_props [] (spread_of_get st n)) ps)) es st = st\<lparr>own := own st @ es\<rparr>"
  using assms
proof (induction es arbitrary: st)
  case Nil
  show ?case by simp
next
  case (Cons e es)
  obtain n ps where e: "e = (n, ps)" by (cases e)
  from Cons.prems have n: "n \<noteq> proto_key" "n \<notin> fst ` set (own st)" "distinct (map fst ps)"
    by (auto simp: e)
  define st1 where "st1 = st\<lparr>own := own st @ [(n, ps)]\<rparr>"
  have "map_of (own st) n = None" using n(2) by (simp add: map_of_eq_None_iff)
  then have g: "spread_of_get st n = []"
    using Cons.prems(1) by (simp add: spread_of_get_def)
  have c: "copy_props (copy_props [] []) ps = ps"
    using n(3) by (simp add: copy_props_id)
  have s1: "steps_assign st n (copy_props (copy_props [] (spread_of_get st n)) ps) = st1"
    unfolding g c using n by (simp add: steps_assign_plain update_fresh st1_def)
  have "fold (\<lambda>(n, ps) st. steps_assign st n
            (copy_props (copy_props [] (spread_of_get st n)) ps)) es st1 = st1\<lparr>own := own st1 @ es\<rparr>"
    by (rule Cons.IH) (use Cons.prems in \<open>auto simp: st1_def e\<close>)
  then show ?case by (simp add: e s1 st1_def)
qed

lemma set_update_subset: "set (AList.update k v al) \<subseteq> insert (k, v) (set al)"
  by (induction al) auto

lemma artifact_fold_distinct:
  assumes "distinct (map fst (own st))" "\<forall>e \<in> set (own st). distinct (map fst (snd e))"
    "proto_key \<notin> fst ` set es"
  shows "distinct (map fst (own (fold (\<lambda>(n, ps) st. steps_assign st n
            (copy_props (copy_props [] (spread_of_get st n)) ps)) es st))) \<and>
         (\<forall>e \<in> set (own (fold (\<lambda>(n, ps) st. steps_assign st n
            (copy_props (copy_props [] (spread_of_get st n)) ps)) es st)). distinct (map fst (snd e)))"
  using assms
proof (induction es arbitrary: st)
  case Nil
  then show ?case by simp
next
  case (Cons e es)
  obtain n ps where e: "e = (n, ps)" by (cases e)
  from Cons.prems have n: "n \<noteq> proto_key" by (auto simp: e)
  define X where "X = copy_props (copy_props [] (spread_of_get st n)) ps"
  define st1 where "st1 = st\<lparr>own := AList.update n X (own st)\<rparr>"
  have s1: "steps_assign st n (copy_props (copy_props [] (spread_of_get st n)) ps) = st1"
    using n by (simp add: steps_assign_plain st1_def X_def)
  have dX: "distinct (map fst X)"
    unfolding X_def by (intro distinct_copy_props) simp
  have d1: "distinct (map fst (own st1))"
    using Cons.prems(1) by (simp add: st1_def distinct_update)
  have d2: "\<forall>e \<in> set (own st1). distinct (map fst (snd e))"
  proof
    fix x assume "x \<in> set (own st1)"
    then have "x = (n, X) \<or> x \<in> set (own st)"
      using set_update_subset[of n X "own st"] by (auto simp: st1_def)
    with dX Cons.prems(2) show "distinct (map fst (snd x))" by auto
  qed
  from Cons.prems(3) have "proto_key \<notin> fst ` set es" by simp
  from Cons.IH[OF d1 d2 this] show ?case by (simp add: e s1)
qed

lemma plain_bundle_iff:
  "plain_bundle \<lparr>workflow = Some w, job = Some j, steps = Some st\<rparr> \<longleftrightarrow>
     distinct (map fst w) \<and> distinct (map fst j) \<and> distinct (map fst (own st)) \<and>
     (\<forall>e \<in> set (own st). distinct (map fst (snd e))) \<and>
     proto st = None \<and> proto_key \<notin> fst ` set (own st)"
  by (simp add: plain_bundle_def list_all_iff)

lemma plain_bundleE:
  assumes "plain_bundle x"
  obtains w j st where "x = \<lparr>workflow = Some w, job = Some j, steps = Some st\<rparr>"
proof -
  from assms obtain w j st where "workflow x = Some w" "job x = Some j" "steps x = Some st"
    by (auto simp: plain_bundle_def split: option.splits)
  then have "x = \<lparr>workflow = Some w, job = Some j, steps = Some st\<rparr>" by (cases x) simp
  then show ?thesis by (rule that)
qed

text \<open>The merge of two complete bundles, of one complete bundle, and of none.\<close>

lemma merge_both:
  "mergeSpanParameters (Some \<lparr>workflow = Some wA, job = Some jA, steps = Some sA\<rparr>)
      (Some \<lparr>workflow = Some wL, job = Some jL, steps = Some sL\<rparr>) =
   Inr \<lparr>workflow = Some (copy_props (copy_props [] (copy_props [] wL)) wA),
        job = Some (copy_props (copy_props [] (copy_props [] jL)) jA),
        steps = Some (fold (\<lambda>(n, ps) st. steps_assign st n
                          (copy_props (copy_props [] (spread_of_get st n)) ps)) (own sA)
                  (fold (\<lambda>(n, ps) st. steps_assign st n (copy_props [] ps)) (own sL)
                     \<lparr>own = [], proto = None\<rparr>))\<rparr>"
  by (simp add: mergeSpanParameters_def apply_log_def apply_artifact_def object_entries_def
      spread_source_def)

lemma merge_log_only:
  "mergeSpanParameters None (Some \<lparr>workflow = Some wL, job = Some jL, steps = Some sL\<rparr>) =
   Inr \<lparr>workflow = Some (copy_props [] wL), job = Some (copy_props [] jL),
        steps = Some (fold (\<lambda>(n, ps) st. steps_assign st n (copy_props [] ps)) (own sL)
                     \<lparr>own = [], proto = None\<rparr>)\<rparr>"
  by (simp add: mergeSpanParameters_def apply_log_def object_entries_def spread_source_def)

lemma merge_artifact_only:
  "mergeSpanParameters (Some \<lparr>workflow = Some wA, job = Some jA, steps = Some sA\<rparr>) None =
   Inr \<lparr>workflow = Some (copy_props (copy_props [] []) wA),
        job = Some (copy_props (copy_props [] []) jA),
        steps = Some (fold (\<lambda>(n, ps) st. steps_assign st n
                          (copy_props (copy_props [] (spread_of_get st n)) ps)) (own sA)
                  \<lparr>own = [], proto = None\<rparr>)\<rparr>"
  by (simp add: mergeSpanParameters_def apply_artifact_def object_entries_def spread_source_def)

lemma log_fold_empty:
  assumes "distinct (map fst (own sL))" "\<forall>e \<in> set (own sL). distinct (map fst (snd e))"
    "proto_key \<notin> fst ` set (own sL)"
  shows "fold (\<lambda>(n, ps) st. steps_assign st n (copy_props [] ps)) (own sL)
           \<lparr>own = [], proto = None\<rparr> = \<lparr>own = own sL, proto = None\<rparr>"
  using log_fold_plain[of "own sL" "\<lparr>own = [], proto = None\<rparr>"] assms by simp

text \<open>
  For plain bundles the merge is the union with the artifact value winning, in \<open>workflow\<close>,
  in \<open>job\<close> and, step by step, in \<open>steps\<close>.
\<close>

lemma merge_plain:
  assumes A: "plain_bundle \<lparr>workflow = Some wA, job = Some jA, steps = Some sA\<rparr>"
    and L: "plain_bundle \<lparr>workflow = Some wL, job = Some jL, steps = Some sL\<rparr>"
  shows "\<exists>w j st.
           mergeSpanParameters (Some \<lparr>workflow = Some wA, job = Some jA, steps = Some sA\<rparr>)
             (Some \<lparr>workflow = Some wL, job = Some jL, steps = Some sL\<rparr>) =
             Inr \<lparr>workflow = Some w, job = Some j, steps = Some st\<rparr> \<and>
           map_of w = map_of wL ++ map_of wA \<and>
           map_of j = map_of jL ++ map_of jA \<and>
           proto st = None \<and>
           distinct (map fst w) \<and> distinct (map fst j) \<and> distinct (map fst (own st)) \<and>
           (\<forall>e \<in> set (own st). distinct (map fst (snd e))) \<and>
           (\<forall>n. map_option map_of (map_of (own st) n) =
                  (case (map_of (own sL) n, map_of (own sA) n) of
                     (None, None) \<Rightarrow> None
                   | (Some l, None) \<Rightarrow> Some (map_of l)
                   | (None, Some a) \<Rightarrow> Some (map_of a)
                   | (Some l, Some a) \<Rightarrow> Some (map_of l ++ map_of a)))"
proof -
  note a = A[unfolded plain_bundle_iff] and l = L[unfolded plain_bundle_iff]
  define st0 where "st0 = \<lparr>own = own sL, proto = None\<rparr>"
  define st where "st = fold (\<lambda>(n, ps) st. steps_assign st n
      (copy_props (copy_props [] (spread_of_get st n)) ps)) (own sA) st0"
  define w where "w = copy_props (copy_props [] (copy_props [] wL)) wA"
  define j where "j = copy_props (copy_props [] (copy_props [] jL)) jA"
  have lf: "fold (\<lambda>(n, ps) st. steps_assign st n (copy_props [] ps)) (own sL)
      \<lparr>own = [], proto = None\<rparr> = st0"
    unfolding st0_def by (rule log_fold_empty) (use l in simp_all)
  have M: "mergeSpanParameters (Some \<lparr>workflow = Some wA, job = Some jA, steps = Some sA\<rparr>)
      (Some \<lparr>workflow = Some wL, job = Some jL, steps = Some sL\<rparr>) =
      Inr \<lparr>workflow = Some w, job = Some j, steps = Some st\<rparr>"
    unfolding merge_both lf w_def j_def st_def ..
  have 1: "map_of w = map_of wL ++ map_of wA"
    using a l by (simp add: w_def copy_props_id map_of_copy_props)
  have 2: "map_of j = map_of jL ++ map_of jA"
    using a l by (simp add: j_def copy_props_id map_of_copy_props)
  have af: "proto st = None \<and>
         map_of (own st) n =
           (case map_of (own sA) n of
              None \<Rightarrow> map_of (own st0) n
            | Some ps \<Rightarrow>
                Some (copy_props
                        (copy_props [] (case map_of (own st0) n of Some q \<Rightarrow> q | None \<Rightarrow> [])) ps))"
    for n
    unfolding st_def by (rule artifact_fold_plain) (use a in \<open>simp_all add: st0_def\<close>)
  have 3: "proto st = None" using af by blast
  have d: "distinct (map fst (own st)) \<and> (\<forall>e \<in> set (own st). distinct (map fst (snd e)))"
    unfolding st_def by (rule artifact_fold_distinct) (use a l in \<open>simp_all add: st0_def\<close>)
  have dw: "distinct (map fst w)" "distinct (map fst j)"
    by (simp_all add: w_def j_def distinct_copy_props)
  have dA: "distinct (map fst x)" if "map_of (own sA) n = Some x" for x n
    using a map_of_SomeD[OF that] by auto
  have dL: "distinct (map fst x)" if "map_of (own sL) n = Some x" for x n
    using l map_of_SomeD[OF that] by auto
  have own: "map_of (own st) n =
           (case map_of (own sA) n of
              None \<Rightarrow> map_of (own sL) n
            | Some ps \<Rightarrow>
                Some (copy_props
                        (copy_props [] (case map_of (own sL) n of Some q \<Rightarrow> q | None \<Rightarrow> [])) ps))"
    for n
    using af[of n] by (simp add: st0_def cong: option.case_cong)
  have 4: "map_option map_of (map_of (own st) n) =
           (case (map_of (own sL) n, map_of (own sA) n) of
              (None, None) \<Rightarrow> None
            | (Some l, None) \<Rightarrow> Some (map_of l)
            | (None, Some a) \<Rightarrow> Some (map_of a)
            | (Some l, Some a) \<Rightarrow> Some (map_of l ++ map_of a))" for n
    unfolding own using dA[of n] dL[of n]
    by (auto simp: map_of_copy_props copy_props_id split: option.splits)
  from M 1 2 3 dw d 4 show ?thesis by blast
qed

text \<open>For a plain bundle an absent argument on the other side gives the bundle back.\<close>

lemma merge_absent_plain:
  assumes "plain_bundle X"
  shows "mergeSpanParameters None (Some X) = Inr X" and "mergeSpanParameters (Some X) None = Inr X"
proof -
  from assms obtain w j st where X: "X = \<lparr>workflow = Some w, job = Some j, steps = Some st\<rparr>"
    by (rule plain_bundleE)
  note x = assms[unfolded X plain_bundle_iff]
  have st: "st = \<lparr>own = own st, proto = None\<rparr>" using x by (cases st) simp
  have lf: "fold (\<lambda>(n, ps) st. steps_assign st n (copy_props [] ps)) (own st)
      \<lparr>own = [], proto = None\<rparr> = st"
    using log_fold_empty[of st] x st by simp
  have af: "fold (\<lambda>(n, ps) st. steps_assign st n
      (copy_props (copy_props [] (spread_of_get st n)) ps)) (own st) \<lparr>own = [], proto = None\<rparr> = st"
    using artifact_fold_fresh[of "\<lparr>own = [], proto = None\<rparr>" "own st"] x st by simp
  show "mergeSpanParameters None (Some X) = Inr X"
    unfolding X merge_log_only lf using x by (simp add: copy_props_id)
  show "mergeSpanParameters (Some X) None = Inr X"
    unfolding X merge_artifact_only af using x by (simp add: copy_props_id)
qed

lemma plain_merge:
  assumes "plain_bundle A" "plain_bundle L"
  shows "\<exists>M. mergeSpanParameters (Some A) (Some L) = Inr M \<and> plain_bundle M"
proof -
  from assms(1) obtain wA jA sA where A: "A = \<lparr>workflow = Some wA, job = Some jA, steps = Some sA\<rparr>"
    by (rule plain_bundleE)
  from assms(2) obtain wL jL sL where L: "L = \<lparr>workflow = Some wL, job = Some jL, steps = Some sL\<rparr>"
    by (rule plain_bundleE)
  from merge_plain[OF assms(1)[unfolded A] assms(2)[unfolded L]] obtain w j st where
    M: "mergeSpanParameters (Some A) (Some L) = Inr \<lparr>workflow = Some w, job = Some j, steps = Some st\<rparr>"
    and d: "distinct (map fst w)" "distinct (map fst j)" "distinct (map fst (own st))"
      "\<forall>e \<in> set (own st). distinct (map fst (snd e))" "proto st = None"
    and s: "\<forall>n. map_option map_of (map_of (own st) n) =
                  (case (map_of (own sL) n, map_of (own sA) n) of
                     (None, None) \<Rightarrow> None
                   | (Some l, None) \<Rightarrow> Some (map_of l)
                   | (None, Some a) \<Rightarrow> Some (map_of a)
                   | (Some l, Some a) \<Rightarrow> Some (map_of l ++ map_of a))"
    unfolding A L by blast
  have "map_of (own sL) proto_key = None" "map_of (own sA) proto_key = None"
    using assms unfolding A L plain_bundle_iff by (simp_all add: map_of_eq_None_iff)
  with s[rule_format, of proto_key] have "map_of (own st) proto_key = None" by simp
  then have "proto_key \<notin> fst ` set (own st)" by (simp add: map_of_eq_None_iff)
  with d have "plain_bundle \<lparr>workflow = Some w, job = Some j, steps = Some st\<rparr>"
    unfolding plain_bundle_iff by blast
  with M show ?thesis by blast
qed

text \<open>For plain bundles, merging the result with an absent log bundle changes nothing.\<close>

lemma merge_idempotent_plain:
  assumes "plain_bundle A" "plain_bundle L" "mergeSpanParameters (Some A) (Some L) = Inr M"
  shows "mergeSpanParameters (Some M) None = Inr M"
proof -
  from plain_merge[OF assms(1,2)] assms(3) have "plain_bundle M" by auto
  then show ?thesis by (rule merge_absent_plain(2))
qed

subsection \<open>Missing fields\<close>

lemma keys_copy_props: "fst ` set (copy_props t s) = fst ` set t \<union> fst ` set s"
proof (induction s arbitrary: t)
  case Nil
  show ?case by (simp add: copy_props_def)
next
  case (Cons e s)
  obtain k v where e: "e = (k, v)" by (cases e)
  have step: "copy_props t (e # s) = copy_props (AList.update k v t) s"
    by (simp add: copy_props_def e)
  have "fst ` set (AList.update k v t) = insert k (fst ` set t)"
    by (induction t) auto
  then show ?case unfolding step Cons.IH by (auto simp: e)
qed

text \<open>
  The merge throws exactly when an argument that is present has no \<open>steps\<close>; otherwise the
  result has its three fields, and its \<open>workflow\<close> and \<open>job\<close> have the keys of both
  sources, a missing field counting as empty.
\<close>

lemma merge_without_steps:
  assumes "\<not> (has_steps a \<and> has_steps l)"
  shows "mergeSpanParameters a l = Inl TypeError"
proof (cases "has_steps l")
  case False
  then obtain lp where "l = Some lp" "steps lp = None"
    by (auto simp: has_steps_def split: option.splits)
  then show ?thesis
    by (simp add: mergeSpanParameters_def apply_log_def object_entries_def)
next
  case True
  with assms obtain ap where ap: "a = Some ap" "steps ap = None"
    by (auto simp: has_steps_def split: option.splits)
  show ?thesis
  proof (cases l)
    case None
    with ap show ?thesis
      by (simp add: mergeSpanParameters_def apply_artifact_def object_entries_def)
  next
    case (Some lp)
    with True obtain sl where "steps lp = Some sl" by (auto simp: has_steps_def)
    with ap Some show ?thesis
      by (simp add: mergeSpanParameters_def apply_log_def apply_artifact_def object_entries_def)
  qed
qed

lemma merge_with_steps:
  assumes "has_steps a" "has_steps l"
  shows "\<exists>w j st. mergeSpanParameters a l = Inr \<lparr>workflow = Some w, job = Some j, steps = Some st\<rparr> \<and>
           fst ` set w = keys_of workflow l \<union> keys_of workflow a \<and>
           fst ` set j = keys_of job l \<union> keys_of job a"
proof -
  define m0 where "m0 = \<lparr>merged_workflow = [], merged_job = [],
      merged_steps = \<lparr>own = [], proto = None\<rparr>\<rparr>"
  have 1: "\<exists>m1. (case l of None \<Rightarrow> Inr m0 | Some lp \<Rightarrow> apply_log m0 lp) = Inr m1 \<and>
      fst ` set (merged_workflow m1) = keys_of workflow l \<and>
      fst ` set (merged_job m1) = keys_of job l"
  proof (cases l)
    case None
    then show ?thesis by (simp add: m0_def keys_of_def)
  next
    case (Some lp)
    with assms(2) obtain sl where "steps lp = Some sl" by (auto simp: has_steps_def)
    with Some show ?thesis
      by (simp add: apply_log_def object_entries_def keys_of_def keys_copy_props)
  qed
  then obtain m1 where m1: "(case l of None \<Rightarrow> Inr m0 | Some lp \<Rightarrow> apply_log m0 lp) = Inr m1"
    "fst ` set (merged_workflow m1) = keys_of workflow l"
    "fst ` set (merged_job m1) = keys_of job l" by blast
  have 2: "\<exists>m2. (case a of None \<Rightarrow> Inr m1 | Some ap \<Rightarrow> apply_artifact m1 ap) = Inr m2 \<and>
      fst ` set (merged_workflow m2) = keys_of workflow l \<union> keys_of workflow a \<and>
      fst ` set (merged_job m2) = keys_of job l \<union> keys_of job a"
  proof (cases a)
    case None
    then show ?thesis by (simp add: m1 keys_of_def)
  next
    case (Some ap)
    with assms(1) obtain sa where "steps ap = Some sa" by (auto simp: has_steps_def)
    with Some show ?thesis
      by (simp add: apply_artifact_def object_entries_def keys_of_def keys_copy_props m1)
  qed
  then obtain m2 where m2: "(case a of None \<Rightarrow> Inr m1 | Some ap \<Rightarrow> apply_artifact m1 ap) = Inr m2"
    "fst ` set (merged_workflow m2) = keys_of workflow l \<union> keys_of workflow a"
    "fst ` set (merged_job m2) = keys_of job l \<union> keys_of job a" by blast
  have "mergeSpanParameters a l =
      Inr \<lparr>workflow = Some (merged_workflow m2), job = Some (merged_job m2),
           steps = Some (merged_steps m2)\<rparr>"
    unfolding mergeSpanParameters_def Let_def m0_def[symmetric] m1(1) using m2(1) by simp
  with m2(2,3) show ?thesis by blast
qed

subsection \<open>Splitting a text into lines and joining them\<close>

lemma contains_iff: "contains pat s \<longleftrightarrow> (\<exists>a b. s = a @ pat @ b)"
proof (induction s)
  case Nil
  show ?case by auto
next
  case (Cons c cs)
  have "(\<exists>a b. c # cs = a @ pat @ b) \<longleftrightarrow>
          (\<exists>b. c # cs = pat @ b) \<or> (\<exists>a b. cs = a @ pat @ b)"
  proof
    assume "\<exists>a b. c # cs = a @ pat @ b"
    then obtain a b where ab: "c # cs = a @ pat @ b" by blast
    show "(\<exists>b. c # cs = pat @ b) \<or> (\<exists>a b. cs = a @ pat @ b)"
    proof (cases a)
      case Nil
      with ab show ?thesis by auto
    next
      case (Cons x a')
      with ab have "cs = a' @ pat @ b" by simp
      then show ?thesis by blast
    qed
  next
    assume "(\<exists>b. c # cs = pat @ b) \<or> (\<exists>a b. cs = a @ pat @ b)"
    then show "\<exists>a b. c # cs = a @ pat @ b"
    proof
      assume "\<exists>b. c # cs = pat @ b"
      then obtain b where "c # cs = [] @ pat @ b" by auto
      then show ?thesis by blast
    next
      assume "\<exists>a b. cs = a @ pat @ b"
      then obtain a b where "c # cs = (c # a) @ pat @ b" by auto
      then show ?thesis by blast
    qed
  qed
  moreover have "strip_prefix pat (c # cs) \<noteq> None \<longleftrightarrow> (\<exists>b. c # cs = pat @ b)"
    using strip_prefix_Some[of pat "c # cs"] by auto
  ultimately show ?case using Cons.IH by simp
qed

lemma isStepStart_iff: "isStepStart l \<longleftrightarrow> (\<exists>a b. l = a @ js ''##[group]'' @ b)"
  by (simp add: isStepStart_def contains_iff)

lemma split_lines_not_Nil [simp]: "split_lines t \<noteq> []"
  by (induction t) (auto split: list.splits)

lemma join_lines_Cons_Cons: "join_lines ((c # l) # ls) = c # join_lines (l # ls)"
  by (cases ls) simp_all

lemma join_split_lines: "join_lines (split_lines t) = t"
proof (induction t)
  case Nil
  show ?case by simp
next
  case (Cons c cs)
  obtain l ls where s: "split_lines cs = l # ls" by (cases "split_lines cs") simp_all
  show ?case
  proof (cases "c = newline")
    case True
    have "join_lines ([] # l # ls) = newline # join_lines (l # ls)" by simp
    with True Cons s show ?thesis by simp
  next
    case False
    with Cons s show ?thesis by (simp add: join_lines_Cons_Cons)
  qed
qed

lemma split_lines_no_newline: "l \<in> set (split_lines t) \<Longrightarrow> newline \<notin> set l"
proof (induction t arbitrary: l)
  case Nil
  then show ?case by simp
next
  case (Cons c cs)
  obtain x xs where s: "split_lines cs = x # xs" by (cases "split_lines cs") simp_all
  show ?case
  proof (cases "c = newline")
    case True
    with Cons.prems s have "l = [] \<or> l \<in> set (split_lines cs)" by auto
    with Cons.IH show ?thesis by auto
  next
    case False
    with Cons.prems s have "l = c # x \<or> l \<in> set xs" by auto
    with Cons.IH[of x] Cons.IH[of l] s False show ?thesis by auto
  qed
qed

lemma join_lines_append:
  "xs \<noteq> [] \<Longrightarrow> ys \<noteq> [] \<Longrightarrow> join_lines (xs @ ys) = join_lines xs @ newline # join_lines ys"
proof (induction xs)
  case Nil
  then show ?case by simp
next
  case (Cons x xs)
  obtain y ys' where ys: "ys = y # ys'" using Cons.prems(2) by (cases ys) auto
  show ?case
  proof (cases xs)
    case Nil
    then show ?thesis by (simp add: ys)
  next
    case (Cons x' xs')
    with Cons.IH Cons.prems(2) have "join_lines (xs @ ys) = join_lines xs @ newline # join_lines ys"
      by simp
    with Cons show ?thesis by simp
  qed
qed

lemma join_lines_concat:
  "\<forall>s \<in> set ss. s \<noteq> [] \<Longrightarrow> join_lines (map join_lines ss) = join_lines (concat ss)"
proof (induction ss)
  case Nil
  show ?case by simp
next
  case (Cons s ss)
  show ?case
  proof (cases ss)
    case Nil
    then show ?thesis by simp
  next
    case (Cons s' ss')
    with Cons.prems have ne: "s \<noteq> []" "concat ss \<noteq> []" by auto
    have "join_lines (map join_lines (s # ss)) =
        join_lines s @ newline # join_lines (map join_lines ss)"
      using Cons by simp
    also have "\<dots> = join_lines s @ newline # join_lines (concat ss)"
      using Cons.IH Cons.prems by simp
    also have "\<dots> = join_lines (s @ concat ss)"
      using join_lines_append[OF ne] by simp
    finally show ?thesis by simp
  qed
qed

lemma join_segments:
  "join_lines (map join_lines (segments ls)) = join_lines (dropWhile (\<lambda>x. \<not> isStepStart x) ls)"
proof -
  have "\<forall>s \<in> set (segments ls). s \<noteq> []" using segments_shape by blast
  from join_lines_concat[OF this] show ?thesis by (simp add: concat_segments)
qed

section \<open>The claims\<close>

text \<open>
  C1, as stated, fails: the scan is non-overlapping, so a well-formed tag that starts inside
  an earlier match of its own shape is not found. In the text
  \<^verbatim>\<open><span-parameter key="<span-parameter key=" value=" value="/>"/>\<close>
  the characters 21 to 63 are a well-formed span-parameter tag with key \<open> value=\<close>, and
  stepParameters has no entry for that key: the match found at position 0 ends inside it.
\<close>

theorem overlapped_tag_not_found:
  "occurrence (tag_name SPAN_PARAM_REGEX)
     (js ''<span-parameter key='' @ [dquote] @ js ''<span-parameter key='' @ [dquote] @
      js '' value='' @ [dquote] @ js '' value='' @ [dquote] @ js ''/>'' @ [dquote] @ js ''/>'')
     21 63 (js '' value='') (js ''/>'') \<and>
   parseStepLogs
     (js ''<span-parameter key='' @ [dquote] @ js ''<span-parameter key='' @ [dquote] @
      js '' value='' @ [dquote] @ js '' value='' @ [dquote] @ js ''/>'' @ [dquote] @ js ''/>'') =
     Inr \<lparr>stepParameters = [(js ''<span-parameter key='', js '' value='')],
          jobParameters = [], workflowParameters = []\<rparr> \<and>
   map_of [(js ''<span-parameter key='', js '' value='')] (js '' value='') = None"
proof -
  let ?T = "js ''<span-parameter key='' @ [dquote] @ js ''<span-parameter key='' @ [dquote] @
      js '' value='' @ [dquote] @ js '' value='' @ [dquote] @ js ''/>'' @ [dquote] @ js ''/>''"
  have len: "length ?T = 63" by (simp add: js_def)
  have eq: "take (63 - 21) (drop 21 ?T) =
      tag_text (js ''span-parameter'') (js '' '') (js '' value='') (js '' '') (js ''/>'') []"
    by (simp add: js_def tag_text_def)
  have wf: "well_formed_tag (js ''span-parameter'')
      (tag_text (js ''span-parameter'') (js '' '') (js '' value='') (js '' '') (js ''/>'') [])
      (js '' value='') (js ''/>'')"
    by (rule well_formed_tagI) (simp_all add: js_def isSpace_def dquote_def)
  have 1: "occurrence (tag_name SPAN_PARAM_REGEX) ?T 21 63 (js '' value='') (js ''/>'')"
    unfolding occurrence_def tag_names eq len using wf by simp
  have 2: "parseStepLogs ?T =
     Inr \<lparr>stepParameters = [(js ''<span-parameter key='', js '' value='')],
          jobParameters = [], workflowParameters = []\<rparr>"
    by code_simp
  have 3: "map_of [(js ''<span-parameter key='', js '' value='')] (js '' value='') = None"
    by (simp add: js_def)
  from 1 2 3 show ?thesis by blast
qed

text \<open>
  C1, amended. For every input text parseStepLogs returns a result, and
  (a) every entry of stepParameters is the key and value of a well-formed span-parameter or
  step-parameter tag of the text, every entry of jobParameters of a well-formed job-parameter
  tag and every entry of workflowParameters of a well-formed workflow-parameter tag, so
  text that is not a well-formed tag contributes no entry;
  (b) every well-formed tag that no earlier well-formed tag of its own shape overlaps, and
  whose key is not \<open>__proto__\<close>, has its key in the mapping of its scope.
\<close>

theorem parseStepLogs_finds_tags:
  "\<exists>r. parseStepLogs t = Inr r \<and>
     (\<forall>k v. map_of (stepParameters r) k = Some v \<longrightarrow>
        (\<exists>i j. occurrence (tag_name SPAN_PARAM_REGEX) t i j k v \<or>
               occurrence (tag_name STEP_PARAM_REGEX) t i j k v)) \<and>
     (\<forall>k v. map_of (jobParameters r) k = Some v \<longrightarrow>
        (\<exists>i j. occurrence (tag_name JOB_PARAM_REGEX) t i j k v)) \<and>
     (\<forall>k v. map_of (workflowParameters r) k = Some v \<longrightarrow>
        (\<exists>i j. occurrence (tag_name WORKFLOW_PARAM_REGEX) t i j k v)) \<and>
     (\<forall>i j k v. k \<noteq> proto_key \<and> clear_before (tag_name SPAN_PARAM_REGEX) t i \<and>
        occurrence (tag_name SPAN_PARAM_REGEX) t i j k v \<longrightarrow> k \<in> fst ` set (stepParameters r)) \<and>
     (\<forall>i j k v. k \<noteq> proto_key \<and> clear_before (tag_name STEP_PARAM_REGEX) t i \<and>
        occurrence (tag_name STEP_PARAM_REGEX) t i j k v \<longrightarrow> k \<in> fst ` set (stepParameters r)) \<and>
     (\<forall>i j k v. k \<noteq> proto_key \<and> clear_before (tag_name JOB_PARAM_REGEX) t i \<and>
        occurrence (tag_name JOB_PARAM_REGEX) t i j k v \<longrightarrow> k \<in> fst ` set (jobParameters r)) \<and>
     (\<forall>i j k v. k \<noteq> proto_key \<and> clear_before (tag_name WORKFLOW_PARAM_REGEX) t i \<and>
        occurrence (tag_name WORKFLOW_PARAM_REGEX) t i j k v \<longrightarrow>
        k \<in> fst ` set (workflowParameters r))"
proof -
  let ?sp = "scan (js ''span-parameter'') t" and ?st = "scan (js ''step-parameter'') t"
  let ?jo = "scan (js ''job-parameter'') t" and ?wo = "scan (js ''workflow-parameter'') t"
  have snd1: "\<exists>i j. occurrence nm t i j k v" if "map_of (record_matches (scan nm t) []) k = Some v"
    for nm k v
    using record_matches_sound[OF that] scan_sound_occurrence by auto
  have snd2: "\<exists>i j. occurrence (js ''span-parameter'') t i j k v \<or>
                    occurrence (js ''step-parameter'') t i j k v"
    if "map_of (record_matches ?st (record_matches ?sp [])) k = Some v" for k v
    using record_matches_sound[OF that] snd1[of "js ''span-parameter''" k v]
      scan_sound_occurrence[of k v "js ''step-parameter''" t] by blast
  have cmp: "k \<in> fst ` set (record_matches (scan nm t) obj)"
    if "k \<noteq> proto_key" "clear_before nm t i" "occurrence nm t i j k v" for nm obj i j k v
    using record_matches_complete[OF scan_complete[OF that(3,2)] that(1)] .
  have cmp2: "k \<in> fst ` set (record_matches ?st (record_matches ?sp []))"
    if "k \<noteq> proto_key" "clear_before (js ''span-parameter'') t i"
      "occurrence (js ''span-parameter'') t i j k v" for i j k v
    using cmp[OF that, of "[]"] unfolding keys_record_matches[of ?st] by blast
  show ?thesis
    unfolding parseStepLogs_eq tag_names
    using snd1 snd2 cmp cmp2 by (intro exI conjI) (simp; blast)+
qed

theorem parseStepLogs_finds_tags_witness:
  "js ''a'' \<noteq> proto_key \<and>
   clear_before (tag_name JOB_PARAM_REGEX)
     (js ''x<job-parameter key='' @ [dquote] @ js ''a'' @ [dquote] @ js '' value='' @ [dquote] @
      js ''b'' @ [dquote] @ js ''/>'') 1 \<and>
   occurrence (tag_name JOB_PARAM_REGEX)
     (js ''x<job-parameter key='' @ [dquote] @ js ''a'' @ [dquote] @ js '' value='' @ [dquote] @
      js ''b'' @ [dquote] @ js ''/>'') 1 35 (js ''a'') (js ''b'') \<and>
   (\<exists>r. parseStepLogs
        (js ''x<job-parameter key='' @ [dquote] @ js ''a'' @ [dquote] @ js '' value='' @ [dquote] @
         js ''b'' @ [dquote] @ js ''/>'') = Inr r \<and>
      js ''a'' \<in> fst ` set (jobParameters r) \<and> map_of (jobParameters r) (js ''a'') = Some (js ''b''))"
proof -
  let ?T = "js ''x<job-parameter key='' @ [dquote] @ js ''a'' @ [dquote] @ js '' value='' @ [dquote] @
      js ''b'' @ [dquote] @ js ''/>''"
  have 1: "js ''a'' \<noteq> proto_key" by (simp add: js_def proto_key_def)
  have 2: "clear_before (tag_name JOB_PARAM_REGEX) ?T 1"
  proof -
    have False if "occurrence (js ''job-parameter'') ?T 0 j' k' v'" for j' k' v'
    proof -
      from that obtain pre w post where "?T = pre @ w @ post" "length pre = 0"
        "well_formed_tag (js ''job-parameter'') w k' v'"
        unfolding occurrence_iff by blast
      then obtain w' where "?T = (js ''<'' @ w') @ post"
        using well_formed_tag_hd by fastforce
      then have "hd ?T = hd ((js ''<'' @ w') @ post)" by (rule arg_cong)
      then show False by (simp add: js_def)
    qed
    then show ?thesis unfolding clear_before_def tag_names less_one by blast
  qed
  have len: "length ?T = 35" by (simp add: js_def)
  have eq: "take (35 - 1) (drop 1 ?T) =
      tag_text (js ''job-parameter'') (js '' '') (js ''a'') (js '' '') (js ''b'') []"
    by (simp add: js_def tag_text_def)
  have wf: "well_formed_tag (js ''job-parameter'')
      (tag_text (js ''job-parameter'') (js '' '') (js ''a'') (js '' '') (js ''b'') [])
      (js ''a'') (js ''b'')"
    by (rule well_formed_tagI) (simp_all add: js_def isSpace_def dquote_def)
  have 3: "occurrence (tag_name JOB_PARAM_REGEX) ?T 1 35 (js ''a'') (js ''b'')"
    unfolding occurrence_def tag_names eq len using wf by simp
  obtain r where
    r: "parseStepLogs ?T = Inr r" and
    c: "\<forall>i j k v. k \<noteq> proto_key \<and> clear_before (tag_name JOB_PARAM_REGEX) ?T i \<and>
        occurrence (tag_name JOB_PARAM_REGEX) ?T i j k v \<longrightarrow> k \<in> fst ` set (jobParameters r)"
  proof -
    from parseStepLogs_finds_tags[of ?T] show ?thesis
      by (elim exE conjE) (rule that, assumption+)
  qed
  have 4: "js ''a'' \<in> fst ` set (jobParameters r)"
    by (rule c[rule_format, OF conjI[OF 1 conjI[OF 2 3]]])
  have "parseStepLogs ?T = Inr \<lparr>stepParameters = [], jobParameters = [(js ''a'', js ''b'')],
      workflowParameters = []\<rparr>"
    by code_simp
  with r have "jobParameters r = [(js ''a'', js ''b'')]" by simp
  then have 5: "map_of (jobParameters r) (js ''a'') = Some (js ''b'')" by simp
  show ?thesis by (intro conjI exI[of _ r] 1 2 3 r 4 5)
qed

text \<open>
  C2 fails at the step identifier \<open>__proto__\<close>, which \<open>JSON.parse\<close> creates as an own
  property. With the artifact bundle
  \<^verbatim>\<open>{"workflow":{},"job":{},"steps":{"__proto__":{"a":"b"}}}\<close> and the log bundle
  \<^verbatim>\<open>{"workflow":{},"job":{},"steps":{"build":{"k":"v"}}}\<close> the union of the step
  identifiers is \<open>build\<close> and \<open>__proto__\<close>, and the result has the own step \<open>build\<close> only:
  the assignment \<open>merged.steps["__proto__"] = {...}\<close> replaced the prototype of
  \<open>merged.steps\<close>. With the log bundle
  \<^verbatim>\<open>{"workflow":{},"job":{},"steps":{"__proto__":{"build":"ab"}}}\<close> and the artifact
  bundle \<^verbatim>\<open>{"workflow":{},"job":{},"steps":{"build":{"k":"v"}}}\<close> the step \<open>build\<close> of
  the result is \<open>{"0":"a","1":"b","k":"v"}\<close>: the read \<open>merged.steps["build"]\<close> found the
  string of the prototype, so the merge of one step depends on another step identifier.
  For bundles with unique keys and no step named \<open>__proto__\<close> the merge is the union
  with the artifact value winning, in every scope and step by step (lemma \<open>merge_plain\<close>).
\<close>

theorem merge_loses_proto_step:
  "mergeSpanParameters
     (Some \<lparr>workflow = Some [], job = Some [],
            steps = Some (\<lparr>own = [(js ''__proto__'', [(js ''a'', js ''b'')])], proto = None\<rparr>)\<rparr>)
     (Some \<lparr>workflow = Some [], job = Some [],
            steps = Some (\<lparr>own = [(js ''build'', [(js ''k'', js ''v'')])], proto = None\<rparr>)\<rparr>) =
   Inr \<lparr>workflow = Some [], job = Some [],
    steps = Some (\<lparr>own = [(js ''build'', [(js ''k'', js ''v'')])], proto = Some [(js ''a'', js ''b'')]\<rparr>)\<rparr> \<and>
   mergeSpanParameters
     (Some \<lparr>workflow = Some [], job = Some [],
            steps = Some (\<lparr>own = [(js ''build'', [(js ''k'', js ''v'')])], proto = None\<rparr>)\<rparr>)
     (Some \<lparr>workflow = Some [], job = Some [],
            steps = Some (\<lparr>own = [(js ''__proto__'', [(js ''build'', js ''ab'')])], proto = None\<rparr>)\<rparr>) =
   Inr \<lparr>workflow = Some [], job = Some [],
    steps = Some (\<lparr>own = [(js ''build'', [(js ''0'', js ''a''), (js ''1'', js ''b''), (js ''k'', js ''v'')])],
             proto = Some [(js ''build'', js ''ab'')]\<rparr>)\<rparr>"
  by code_simp

text \<open>
  C3. For every log text and every non-empty step list, parseJobLogs returns a map with one
  entry for each line that contains \<open>##[group]\<close>, keyed 0, 1, ... in the order of the
  lines, and the entry of a marker is parseStepLogs of the text of that marker's segment.
  The lines are those of the log text: none contains a newline, and joined with newlines
  they are the log text. The segments are those of the specification: together they are
  the lines from the first marker line on (the lines before it are dropped, the last
  segment runs to the last line), and each segment is a marker line followed by lines
  without a marker, a marker line being a line that contains \<open>##[group]\<close> somewhere. The
  text of a segment is its lines joined with newlines, so the texts of the segments, joined
  with newlines, are the part of the log text from the first marker line on. The statement
  holds for any number of marker lines, none included.
\<close>

theorem parseJobLogs_segments:
  assumes "step_list \<noteq> []"
  shows "\<exists>m dbg. parseJobLogs jobLog step_list = Inr (m, dbg) \<and>
     length m = length (filter isStepStart (split_lines jobLog)) \<and>
     map fst m = map int [0..<length (filter isStepStart (split_lines jobLog))] \<and>
     map (Inr \<circ> snd) m = map (parseStepLogs \<circ> join_lines) (segments (split_lines jobLog)) \<and>
     concat (segments (split_lines jobLog)) =
       dropWhile (\<lambda>l. \<not> isStepStart l) (split_lines jobLog) \<and>
     (\<forall>s \<in> set (segments (split_lines jobLog)).
        s \<noteq> [] \<and> isStepStart (hd s) \<and> (\<forall>l \<in> set (tl s). \<not> isStepStart l)) \<and>
     join_lines (split_lines jobLog) = jobLog \<and>
     (\<forall>l \<in> set (split_lines jobLog). newline \<notin> set l) \<and>
     join_lines (map join_lines (segments (split_lines jobLog))) =
       join_lines (dropWhile (\<lambda>l. \<not> isStepStart l) (split_lines jobLog)) \<and>
     (\<forall>l. isStepStart l \<longleftrightarrow> (\<exists>a b. l = a @ js ''##[group]'' @ b))"
proof -
  let ?ls = "split_lines jobLog"
  have e: "parseJobLogs jobLog step_list =
      Inr (entries 0 (segments ?ls), map message_of (entries 0 (segments ?ls)))"
  proof (cases "jobLog = []")
    case True
    then show ?thesis by (simp add: parseJobLogs_eq)
  next
    case False
    with assms show ?thesis by (simp add: parseJobLogs_eq)
  qed
  have 1: "length (entries 0 (segments ?ls)) = length (filter isStepStart ?ls)"
    by (simp add: length_segments)
  have 2: "map fst (entries 0 (segments ?ls)) = map int [0..<length (filter isStepStart ?ls)]"
    by (simp add: fst_entries length_segments)
  have 3: "map (Inr \<circ> snd) (entries 0 (segments ?ls)) =
      map (parseStepLogs \<circ> join_lines) (segments ?ls)"
    by (rule snd_entries)
  have 4: "\<forall>s \<in> set (segments ?ls).
      s \<noteq> [] \<and> isStepStart (hd s) \<and> (\<forall>l \<in> set (tl s). \<not> isStepStart l)"
    using segments_shape by blast
  have 5: "\<forall>l \<in> set ?ls. newline \<notin> set l"
    using split_lines_no_newline by blast
  show ?thesis
    by (intro exI conjI, rule e, rule 1, rule 2, rule 3, rule concat_segments, rule 4,
        rule join_split_lines, rule 5, rule join_segments, rule allI, rule isStepStart_iff)
qed

theorem parseJobLogs_segments_witness:
  "[\<lparr>name = js ''Build'', number = 1\<rparr>] \<noteq> [] \<and>
   (\<exists>m dbg. parseJobLogs
        (js ''pre'' @ [newline] @ js ''t ##[group]Run a'' @ [newline] @
         js ''<span-parameter key='' @ [dquote] @ js ''k'' @ [dquote] @ js '' value='' @
         [dquote] @ js ''1'' @ [dquote] @ js ''/>'' @ [newline] @ js ''##[group]Run b'')
        [\<lparr>name = js ''Build'', number = 1\<rparr>] = Inr (m, dbg) \<and>
      map fst m = [0, 1] \<and>
      map (Inr \<circ> snd) m =
        [parseStepLogs (js ''t ##[group]Run a'' @ [newline] @
           js ''<span-parameter key='' @ [dquote] @ js ''k'' @ [dquote] @ js '' value='' @
           [dquote] @ js ''1'' @ [dquote] @ js ''/>''),
         parseStepLogs (js ''##[group]Run b'')] \<and>
      map snd m =
        [\<lparr>stepParameters = [(js ''k'', js ''1'')], jobParameters = [], workflowParameters = []\<rparr>,
         \<lparr>stepParameters = [], jobParameters = [], workflowParameters = []\<rparr>]) \<and>
   join_lines (split_lines
        (js ''pre'' @ [newline] @ js ''t ##[group]Run a'' @ [newline] @
         js ''<span-parameter key='' @ [dquote] @ js ''k'' @ [dquote] @ js '' value='' @
         [dquote] @ js ''1'' @ [dquote] @ js ''/>'' @ [newline] @ js ''##[group]Run b'')) =
     js ''pre'' @ [newline] @ js ''t ##[group]Run a'' @ [newline] @
     js ''<span-parameter key='' @ [dquote] @ js ''k'' @ [dquote] @ js '' value='' @
     [dquote] @ js ''1'' @ [dquote] @ js ''/>'' @ [newline] @ js ''##[group]Run b'' \<and>
   join_lines (map join_lines (segments (split_lines
        (js ''pre'' @ [newline] @ js ''t ##[group]Run a'' @ [newline] @
         js ''<span-parameter key='' @ [dquote] @ js ''k'' @ [dquote] @ js '' value='' @
         [dquote] @ js ''1'' @ [dquote] @ js ''/>'' @ [newline] @ js ''##[group]Run b'')))) =
     js ''t ##[group]Run a'' @ [newline] @
     js ''<span-parameter key='' @ [dquote] @ js ''k'' @ [dquote] @ js '' value='' @
     [dquote] @ js ''1'' @ [dquote] @ js ''/>'' @ [newline] @ js ''##[group]Run b''"
proof -
  let ?L = "js ''pre'' @ [newline] @ js ''t ##[group]Run a'' @ [newline] @
         js ''<span-parameter key='' @ [dquote] @ js ''k'' @ [dquote] @ js '' value='' @
         [dquote] @ js ''1'' @ [dquote] @ js ''/>'' @ [newline] @ js ''##[group]Run b''"
  let ?S = "[\<lparr>name = js ''Build'', number = 1\<rparr>]"
  have ne: "?S \<noteq> []" by simp
  obtain m dbg where
    r: "parseJobLogs ?L ?S = Inr (m, dbg)" and
    k: "map fst m = map int [0..<length (filter isStepStart (split_lines ?L))]" and
    v: "map (Inr \<circ> snd) m = map (parseStepLogs \<circ> join_lines) (segments (split_lines ?L))" and
    j: "join_lines (split_lines ?L) = ?L" and
    g: "join_lines (map join_lines (segments (split_lines ?L))) =
          join_lines (dropWhile (\<lambda>l. \<not> isStepStart l) (split_lines ?L))"
  proof -
    from parseJobLogs_segments[OF ne, of ?L] show ?thesis
      by (elim exE conjE) (rule that, assumption+)
  qed
  have n: "length (filter isStepStart (split_lines ?L)) = 2" by code_simp
  have s: "map (parseStepLogs \<circ> join_lines) (segments (split_lines ?L)) =
        [parseStepLogs (js ''t ##[group]Run a'' @ [newline] @
           js ''<span-parameter key='' @ [dquote] @ js ''k'' @ [dquote] @ js '' value='' @
           [dquote] @ js ''1'' @ [dquote] @ js ''/>''),
         parseStepLogs (js ''##[group]Run b'')]"
    by code_simp
  have "parseJobLogs ?L ?S =
      Inr ([(0, \<lparr>stepParameters = [(js ''k'', js ''1'')], jobParameters = [],
                 workflowParameters = []\<rparr>),
            (1, \<lparr>stepParameters = [], jobParameters = [], workflowParameters = []\<rparr>)],
           [ParsedStepParameters 1 0, ParsedStepParameters 0 1])"
    by code_simp
  with r have m: "map snd m =
        [\<lparr>stepParameters = [(js ''k'', js ''1'')], jobParameters = [], workflowParameters = []\<rparr>,
         \<lparr>stepParameters = [], jobParameters = [], workflowParameters = []\<rparr>]"
    by simp
  have k': "map fst m = [0, 1]" using k unfolding n by (simp add: upt_rec)
  have t: "join_lines (dropWhile (\<lambda>l. \<not> isStepStart l) (split_lines ?L)) =
     js ''t ##[group]Run a'' @ [newline] @
     js ''<span-parameter key='' @ [dquote] @ js ''k'' @ [dquote] @ js '' value='' @
     [dquote] @ js ''1'' @ [dquote] @ js ''/>'' @ [newline] @ js ''##[group]Run b''"
    by code_simp
  show ?thesis
    by (intro conjI exI[of _ m] exI[of _ dbg], rule ne, rule r, rule k', rule v[unfolded s],
        rule m, rule j, rule g[unfolded t])
qed

text \<open>
  C4 fails at the key \<open>__proto__\<close>. The text
  \<^verbatim>\<open><span-parameter key="__proto__" value="1"/><step-parameter key="__proto__" value="2"/>\<close>
  has one match of each shape with that key. Neither assignment creates a property, so
  stepParameters stays empty and the step-parameter value is not the value of the key. For
  every other key the matches are applied as claimed: the last step-parameter match gives
  the value, and the last span-parameter match where no step-parameter match has the key
  (lemma \<open>stepParameters_precedence\<close>).
\<close>

theorem proto_key_never_recorded:
  "matchAll SPAN_PARAM_REGEX
     (js ''<span-parameter key='' @ [dquote] @ js ''__proto__'' @ [dquote] @ js '' value='' @
      [dquote] @ js ''1'' @ [dquote] @ js ''/><step-parameter key='' @ [dquote] @
      js ''__proto__'' @ [dquote] @ js '' value='' @ [dquote] @ js ''2'' @ [dquote] @ js ''/>'') =
     Inr [(js ''__proto__'', js ''1'')] \<and>
   matchAll STEP_PARAM_REGEX
     (js ''<span-parameter key='' @ [dquote] @ js ''__proto__'' @ [dquote] @ js '' value='' @
      [dquote] @ js ''1'' @ [dquote] @ js ''/><step-parameter key='' @ [dquote] @
      js ''__proto__'' @ [dquote] @ js '' value='' @ [dquote] @ js ''2'' @ [dquote] @ js ''/>'') =
     Inr [(js ''__proto__'', js ''2'')] \<and>
   parseStepLogs
     (js ''<span-parameter key='' @ [dquote] @ js ''__proto__'' @ [dquote] @ js '' value='' @
      [dquote] @ js ''1'' @ [dquote] @ js ''/><step-parameter key='' @ [dquote] @
      js ''__proto__'' @ [dquote] @ js '' value='' @ [dquote] @ js ''2'' @ [dquote] @ js ''/>'') =
     Inr \<lparr>stepParameters = [], jobParameters = [], workflowParameters = []\<rparr>"
  by code_simp

text \<open>
  C5, as stated, fails for the key: the empty sequence is a sequence of non-double-quote
  characters, and a tag written with \<open>key=""\<close> is not recognized, even with \<open>value=""\<close>.
\<close>

theorem empty_key_not_recognized:
  "matchAll SPAN_PARAM_REGEX
     (js ''<span-parameter key='' @ [dquote, dquote] @ js '' value='' @ [dquote, dquote] @ js ''/>'') =
     Inr [] \<and>
   parseStepLogs
     (js ''<span-parameter key='' @ [dquote, dquote] @ js '' value='' @ [dquote, dquote] @ js ''/>'') =
     Inr \<lparr>stepParameters = [], jobParameters = [], workflowParameters = []\<rparr>"
  by code_simp

text \<open>
  C5, amended. In a recognized tag the key is any non-empty sequence of characters other
  than the double quote, and the value any sequence of such characters, the empty one
  included: each of the four patterns, run over a tag of its own shape with such a key and
  value, yields exactly that key and value. When the key is not \<open>__proto__\<close>, parseStepLogs
  on a span-parameter tag records the key with the value, so a tag with \<open>value=""\<close> records
  its key mapped to the empty string.
\<close>

theorem recognized_tag_key_value:
  assumes "r \<in> {SPAN_PARAM_REGEX, STEP_PARAM_REGEX, JOB_PARAM_REGEX, WORKFLOW_PARAM_REGEX}"
    and "ws1 \<noteq> []" "ws2 \<noteq> []"
    and "\<forall>c \<in> set ws1. isSpace c" "\<forall>c \<in> set ws2. isSpace c" "\<forall>c \<in> set ws3. isSpace c"
    and "k \<noteq> []" "dquote \<notin> set k" "dquote \<notin> set v"
  shows "matchAll r (tag_text (tag_name r) ws1 k ws2 v ws3) = Inr [(k, v)] \<and>
         (k \<noteq> proto_key \<longrightarrow>
            (\<exists>res. parseStepLogs (tag_text (tag_name SPAN_PARAM_REGEX) ws1 k ws2 v ws3) = Inr res \<and>
                   stepParameters res = [(k, v)]))"
proof -
  have wf: "well_formed_tag nm (tag_text nm ws1 k ws2 v ws3) k v" for nm
    by (rule well_formed_tagI) (use assms in auto)
  have g: "global r" using assms(1)
    by (auto simp: SPAN_PARAM_REGEX_def STEP_PARAM_REGEX_def JOB_PARAM_REGEX_def
        WORKFLOW_PARAM_REGEX_def)
  have 1: "matchAll r (tag_text (tag_name r) ws1 k ws2 v ws3) = Inr [(k, v)]"
    using g scan_single_tag[OF wf] by (simp add: matchAll_def)
  let ?T = "tag_text (js ''span-parameter'') ws1 k ws2 v ws3"
  have sp: "scan (js ''span-parameter'') ?T = [(k, v)]"
    by (rule scan_single_tag[OF wf])
  have st: "set (scan (js ''step-parameter'') ?T) \<subseteq> {(k, v)}"
    by (rule single_tag_other_shape[OF wf regex_names_no_quote(1,2)])
  have 2: "stepParameters res = [(k, v)]"
    if "k \<noteq> proto_key" "parseStepLogs ?T = Inr res" for res
  proof -
    have "record_matches (scan (js ''span-parameter'') ?T) [] = [(k, v)]"
      unfolding sp using that(1) by (simp add: record_matches_def assign_string_def)
    then have "stepParameters res = record_matches (scan (js ''step-parameter'') ?T) [(k, v)]"
      using that(2) unfolding parseStepLogs_eq by auto
    with record_matches_same[OF st that(1)] show ?thesis by simp
  qed
  have "\<exists>res. parseStepLogs ?T = Inr res" unfolding parseStepLogs_eq by blast
  with 1 2 show ?thesis unfolding tag_names by blast
qed

theorem recognized_tag_key_value_witness:
  "SPAN_PARAM_REGEX \<in> {SPAN_PARAM_REGEX, STEP_PARAM_REGEX, JOB_PARAM_REGEX, WORKFLOW_PARAM_REGEX} \<and>
   js ''empty'' \<noteq> [] \<and> dquote \<notin> set (js ''empty'') \<and> js ''empty'' \<noteq> proto_key \<and>
   tag_text (tag_name SPAN_PARAM_REGEX) (js '' '') (js ''empty'') (js '' '') [] [] =
     js ''<span-parameter key='' @ [dquote] @ js ''empty'' @ [dquote] @ js '' value='' @
     [dquote, dquote] @ js ''/>'' \<and>
   matchAll SPAN_PARAM_REGEX
     (js ''<span-parameter key='' @ [dquote] @ js ''empty'' @ [dquote] @ js '' value='' @
      [dquote, dquote] @ js ''/>'') = Inr [(js ''empty'', [])] \<and>
   (\<exists>res. parseStepLogs
        (js ''<span-parameter key='' @ [dquote] @ js ''empty'' @ [dquote] @ js '' value='' @
         [dquote, dquote] @ js ''/>'') = Inr res \<and>
      stepParameters res = [(js ''empty'', [])])"
proof -
  have sp: "js '' '' \<noteq> []" "\<forall>c \<in> set (js '' ''). isSpace c" "\<forall>c \<in> set ([] :: jsstring). isSpace c"
    by (simp_all add: js_def isSpace_def)
  have k: "js ''empty'' \<noteq> []" "dquote \<notin> set (js ''empty'')" "dquote \<notin> set ([] :: jsstring)"
    by (simp_all add: js_def dquote_def)
  have p: "js ''empty'' \<noteq> proto_key" by (simp add: js_def proto_key_def)
  have m: "SPAN_PARAM_REGEX \<in> {SPAN_PARAM_REGEX, STEP_PARAM_REGEX, JOB_PARAM_REGEX, WORKFLOW_PARAM_REGEX}"
    by simp
  have t: "tag_text (tag_name SPAN_PARAM_REGEX) (js '' '') (js ''empty'') (js '' '') [] [] =
     js ''<span-parameter key='' @ [dquote] @ js ''empty'' @ [dquote] @ js '' value='' @
     [dquote, dquote] @ js ''/>''"
    by (simp add: tag_text_def js_def)
  note th = recognized_tag_key_value[OF m sp(1) sp(1) sp(2) sp(2) sp(3) k, unfolded t]
  from th p have
    "\<exists>res. parseStepLogs
        (js ''<span-parameter key='' @ [dquote] @ js ''empty'' @ [dquote] @ js '' value='' @
         [dquote, dquote] @ js ''/>'') = Inr res \<and>
      stepParameters res = [(js ''empty'', [])]"
    by (elim conjE impE) assumption+
  with th[THEN conjunct1] m k(1,2) p t show ?thesis by (intro conjI) assumption+
qed

text \<open>
  C6. For every log text and every two non-empty step lists, parseJobLogs returns the same
  result (the map and the debug messages): the names, the numbers and the length of the
  step list do not reach the output.
\<close>

theorem parseJobLogs_ignores_steps:
  assumes "s1 \<noteq> []" "s2 \<noteq> []"
  shows "parseJobLogs jobLog s1 = parseJobLogs jobLog s2"
  using assms by (simp add: parseJobLogs_eq)

theorem parseJobLogs_ignores_steps_witness:
  "[\<lparr>name = js ''Checkout'', number = 1\<rparr>] \<noteq> [] \<and>
   [\<lparr>name = js ''Install'', number = 7\<rparr>, \<lparr>name = js ''Test'', number = 2\<rparr>,
    \<lparr>name = js ''Lint'', number = 3\<rparr>] \<noteq> [] \<and>
   parseJobLogs (js ''##[group]a'' @ [newline] @ js ''##[group]b'')
     [\<lparr>name = js ''Checkout'', number = 1\<rparr>] =
   parseJobLogs (js ''##[group]a'' @ [newline] @ js ''##[group]b'')
     [\<lparr>name = js ''Install'', number = 7\<rparr>, \<lparr>name = js ''Test'', number = 2\<rparr>,
      \<lparr>name = js ''Lint'', number = 3\<rparr>] \<and>
   parseJobLogs (js ''##[group]a'' @ [newline] @ js ''##[group]b'')
     [\<lparr>name = js ''Checkout'', number = 1\<rparr>] =
   Inr ([(0, \<lparr>stepParameters = [], jobParameters = [], workflowParameters = []\<rparr>),
         (1, \<lparr>stepParameters = [], jobParameters = [], workflowParameters = []\<rparr>)],
        [ParsedStepParameters 0 0, ParsedStepParameters 0 1])"
proof -
  have 1: "[\<lparr>name = js ''Checkout'', number = 1\<rparr>] \<noteq> []" by simp
  have 2: "[\<lparr>name = js ''Install'', number = 7\<rparr>, \<lparr>name = js ''Test'', number = 2\<rparr>,
    \<lparr>name = js ''Lint'', number = 3\<rparr>] \<noteq> []" by simp
  have 3: "parseJobLogs (js ''##[group]a'' @ [newline] @ js ''##[group]b'')
     [\<lparr>name = js ''Checkout'', number = 1\<rparr>] =
   Inr ([(0, \<lparr>stepParameters = [], jobParameters = [], workflowParameters = []\<rparr>),
         (1, \<lparr>stepParameters = [], jobParameters = [], workflowParameters = []\<rparr>)],
        [ParsedStepParameters 0 0, ParsedStepParameters 0 1])"
    by code_simp
  show ?thesis
    by (intro conjI, rule 1, rule 2, rule parseJobLogs_ignores_steps[OF 1 2], rule 3)
qed

text \<open>
  C7 fails at the same step identifier. With the artifact bundle
  \<^verbatim>\<open>{"workflow":{},"job":{},"steps":{"__proto__":{"a":"b"}}}\<close> and no log bundle the
  result has no own step at all, so it is not the artifact bundle; the same bundle on the
  log side, with no artifact bundle, gives the same result. Two absent arguments give the
  empty bundle, and for bundles with unique keys and no step named \<open>__proto__\<close> an absent
  argument is an identity and the merge is idempotent (lemmas \<open>merge_absent_plain\<close> and
  \<open>merge_idempotent_plain\<close>).
\<close>

theorem merge_absent_not_identity:
  "mergeSpanParameters
     (Some \<lparr>workflow = Some [], job = Some [],
            steps = Some (\<lparr>own = [(js ''__proto__'', [(js ''a'', js ''b'')])], proto = None\<rparr>)\<rparr>)
     None =
   Inr \<lparr>workflow = Some [], job = Some [], steps = Some (\<lparr>own = [], proto = Some [(js ''a'', js ''b'')]\<rparr>)\<rparr> \<and>
   mergeSpanParameters None
     (Some \<lparr>workflow = Some [], job = Some [],
            steps = Some (\<lparr>own = [(js ''__proto__'', [(js ''a'', js ''b'')])], proto = None\<rparr>)\<rparr>) =
   Inr \<lparr>workflow = Some [], job = Some [], steps = Some (\<lparr>own = [], proto = Some [(js ''a'', js ''b'')]\<rparr>)\<rparr>"
  by code_simp

text \<open>
  C8, as stated, fails twice. parseJobLogs is not pure: each time it stores an entry it
  calls \<open>core.debug\<close>, and on the one-line log \<open>##[group]\<close> it writes one message.
  mergeSpanParameters throws for a partial bundle: the loader hands over
  \<open>JSON.parse(content)\<close> unchecked, and for the artifact bundle
  \<^verbatim>\<open>{"workflow":{},"job":{}}\<close>, which has no \<open>steps\<close>, the call
  \<open>Object.entries(artifactParams.steps)\<close> throws a TypeError.
\<close>

theorem debug_written_and_merge_throws:
  "parseJobLogs (js ''##[group]'') [\<lparr>name = js ''Build'', number = 1\<rparr>] =
     Inr ([(0, \<lparr>stepParameters = [], jobParameters = [], workflowParameters = []\<rparr>)],
          [ParsedStepParameters 0 0]) \<and>
   mergeSpanParameters (Some \<lparr>workflow = Some [], job = Some [], steps = None\<rparr>) None =
     Inl TypeError"
  by code_simp

text \<open>
  C8, amended. parseStepLogs and parseJobLogs return a result, never an error, for every
  text and every step list. mergeSpanParameters returns a bundle with its three fields,
  and no error, whenever each argument is absent or has a \<open>steps\<close> object; a missing
  \<open>workflow\<close> or \<open>job\<close> counts as empty, the \<open>workflow\<close> and the \<open>job\<close> of the result having
  the keys of both sources. parseStepLogs and mergeSpanParameters call nothing that has an
  effect, and mergeSpanParameters builds its result from fresh objects; the
  effect of parseJobLogs is one debug message for each entry of the map it returns. Empty
  or missing input gives an empty result: the empty text and any text without the character
  \<open><\<close> give three empty mappings, the empty log and the empty step list give the empty map
  and no message, and two absent bundles give the empty bundle.
\<close>

theorem core_functions_total:
  "(\<exists>r. parseStepLogs t = Inr r) \<and>
   (\<exists>m. parseJobLogs jobLog step_list = Inr (m, map message_of m)) \<and>
   (has_steps a \<and> has_steps l \<longrightarrow>
      (\<exists>w j st. mergeSpanParameters a l = Inr \<lparr>workflow = Some w, job = Some j, steps = Some st\<rparr> \<and>
         fst ` set w = keys_of workflow l \<union> keys_of workflow a \<and>
         fst ` set j = keys_of job l \<union> keys_of job a)) \<and>
   parseStepLogs [] =
     Inr \<lparr>stepParameters = [], jobParameters = [], workflowParameters = []\<rparr> \<and>
   (of_char CHR ''<'' \<notin> set t \<longrightarrow>
      parseStepLogs t = Inr \<lparr>stepParameters = [], jobParameters = [], workflowParameters = []\<rparr>) \<and>
   parseJobLogs [] step_list = Inr ([], []) \<and>
   parseJobLogs jobLog [] = Inr ([], []) \<and>
   mergeSpanParameters None None =
     Inr \<lparr>workflow = Some [], job = Some [], steps = Some \<lparr>own = [], proto = None\<rparr>\<rparr>"
proof -
  have 1: "\<exists>r. parseStepLogs t = Inr r" unfolding parseStepLogs_eq by blast
  have 2: "\<exists>m. parseJobLogs jobLog step_list = Inr (m, map message_of m)"
    unfolding parseJobLogs_eq by auto
  have 3: "parseStepLogs [] =
     Inr \<lparr>stepParameters = [], jobParameters = [], workflowParameters = []\<rparr>"
    by (simp add: parseStepLogs_eq record_matches_def)
  have 4: "of_char CHR ''<'' \<notin> set t \<longrightarrow>
      parseStepLogs t = Inr \<lparr>stepParameters = [], jobParameters = [], workflowParameters = []\<rparr>"
    by (simp add: parseStepLogs_eq scan_without_lt record_matches_def)
  have 5: "parseJobLogs [] step_list = Inr ([], [])" "parseJobLogs jobLog [] = Inr ([], [])"
    by (simp_all add: parseJobLogs_eq)
  have 6: "mergeSpanParameters None None =
     Inr \<lparr>workflow = Some [], job = Some [], steps = Some \<lparr>own = [], proto = None\<rparr>\<rparr>"
    by (simp add: mergeSpanParameters_def)
  have 7: "has_steps a \<and> has_steps l \<longrightarrow>
      (\<exists>w j st. mergeSpanParameters a l = Inr \<lparr>workflow = Some w, job = Some j, steps = Some st\<rparr> \<and>
         fst ` set w = keys_of workflow l \<union> keys_of workflow a \<and>
         fst ` set j = keys_of job l \<union> keys_of job a)"
    using merge_with_steps by blast
  from 1 2 7 3 4 5 6 show ?thesis by (intro conjI)
qed

theorem core_functions_total_witness:
  "of_char CHR ''<'' \<notin> set (js ''Just regular log output'') \<and>
   parseStepLogs (js ''Just regular log output'') =
     Inr \<lparr>stepParameters = [], jobParameters = [], workflowParameters = []\<rparr> \<and>
   (\<exists>m. parseJobLogs (js ''##[group]a'') [\<lparr>name = js ''Build'', number = 1\<rparr>] =
          Inr (m, map message_of m)) \<and>
   has_steps (Some \<lparr>workflow = None, job = Some [(js ''x'', js ''y'')],
                    steps = Some \<lparr>own = [], proto = None\<rparr>\<rparr>) \<and>
   has_steps None \<and>
   (\<exists>w j st. mergeSpanParameters
        (Some \<lparr>workflow = None, job = Some [(js ''x'', js ''y'')],
               steps = Some \<lparr>own = [], proto = None\<rparr>\<rparr>) None =
        Inr \<lparr>workflow = Some w, job = Some j, steps = Some st\<rparr> \<and>
      fst ` set w = {} \<and> fst ` set j = {js ''x''})"
proof -
  let ?P = "\<lparr>workflow = None, job = Some [(js ''x'', js ''y'')],
             steps = Some \<lparr>own = [], proto = None\<rparr>\<rparr>"
  have 1: "of_char CHR ''<'' \<notin> set (js ''Just regular log output'')"
    by (simp add: js_def)
  note th = core_functions_total[of "js ''Just regular log output''" "js ''##[group]a''"
      "[\<lparr>name = js ''Build'', number = 1\<rparr>]" "Some ?P" None]
  from th 1 have 2: "parseStepLogs (js ''Just regular log output'') =
     Inr \<lparr>stepParameters = [], jobParameters = [], workflowParameters = []\<rparr>"
    by blast
  from th have 3: "\<exists>m. parseJobLogs (js ''##[group]a'') [\<lparr>name = js ''Build'', number = 1\<rparr>] =
          Inr (m, map message_of m)"
    by blast
  have h: "has_steps (Some ?P)" "has_steps None" by (simp_all add: has_steps_def)
  have k: "keys_of workflow None \<union> keys_of workflow (Some ?P) = {}"
    "keys_of job None \<union> keys_of job (Some ?P) = {js ''x''}"
    by (simp_all add: keys_of_def spread_source_def)
  from th h have "\<exists>w j st. mergeSpanParameters (Some ?P) None =
        Inr \<lparr>workflow = Some w, job = Some j, steps = Some st\<rparr> \<and>
      fst ` set w = keys_of workflow None \<union> keys_of workflow (Some ?P) \<and>
      fst ` set j = keys_of job None \<union> keys_of job (Some ?P)"
    by blast
  then have 4: "\<exists>w j st. mergeSpanParameters (Some ?P) None =
        Inr \<lparr>workflow = Some w, job = Some j, steps = Some st\<rparr> \<and>
      fst ` set w = {} \<and> fst ` set j = {js ''x''}"
    unfolding k .
  show ?thesis by (intro conjI 1 2 3 h 4)
qed

text \<open>
  C9. With the empty log text, whatever the step list, and with the empty step list,
  whatever the log text, parseJobLogs returns the empty map without an error (and writes no
  debug message).
\<close>

theorem parseJobLogs_empty_inputs:
  "parseJobLogs [] step_list = Inr ([], []) \<and> parseJobLogs jobLog [] = Inr ([], [])"
  by (simp add: parseJobLogs_def)

theorem parseJobLogs_empty_inputs_witness:
  "parseJobLogs [] [\<lparr>name = js ''Checkout'', number = 1\<rparr>] = Inr ([], []) \<and>
   parseJobLogs (js ''##[group]Some log output'') [] = Inr ([], [])"
  using parseJobLogs_empty_inputs[of "[\<lparr>name = js ''Checkout'', number = 1\<rparr>]"
      "js ''##[group]Some log output''"]
  by simp

text \<open>
  C10. For every input text, none of the three mappings returned by parseStepLogs has the
  empty string as a key; an attempt of a pattern at a tag written with \<open>key=""\<close> fails,
  whatever the value is.
\<close>

theorem parseStepLogs_no_empty_key:
  "(\<exists>r. parseStepLogs t = Inr r \<and>
        [] \<notin> fst ` set (stepParameters r) \<and>
        [] \<notin> fst ` set (jobParameters r) \<and>
        [] \<notin> fst ` set (workflowParameters r)) \<and>
   ((\<forall>c \<in> set ws1. isSpace c) \<longrightarrow> exec_at nm (tag_text nm ws1 [] ws2 v ws3 @ rest) = None)"
proof -
  have "[] \<notin> fst ` set (scan nm' t)" for nm'
    using scan_key_nonempty[of "[]" _ nm' t] by auto
  then show ?thesis
    by (simp add: parseStepLogs_eq keys_record_matches exec_at_empty_key)
qed

theorem parseStepLogs_no_empty_key_witness:
  "parseStepLogs (js ''<span-parameter key='' @ [dquote, dquote] @ js '' value='' @ [dquote] @ js ''x'' @ [dquote] @ js ''/>'') =
     Inr \<lparr>stepParameters = [], jobParameters = [], workflowParameters = []\<rparr> \<and>
   exec_at (js ''span-parameter'')
     (tag_text (js ''span-parameter'') (js '' '') [] (js '' '') (js ''x'') [] @ []) = None"
proof -
  have sp: "\<forall>c \<in> set (js '' ''). isSpace c" by (simp add: js_def isSpace_def)
  have e: "exec_at (js ''span-parameter'')
     (tag_text (js ''span-parameter'') (js '' '') [] (js '' '') (js ''x'') [] @ []) = None"
    using parseStepLogs_no_empty_key[of "[]" "js '' ''" "js ''span-parameter''" "js '' ''" "js ''x''" "[]" "[]"] sp
    by blast
  have "parseStepLogs (js ''<span-parameter key='' @ [dquote, dquote] @ js '' value='' @ [dquote] @ js ''x'' @ [dquote] @ js ''/>'') =
     Inr \<lparr>stepParameters = [], jobParameters = [], workflowParameters = []\<rparr>"
    by code_simp
  with e show ?thesis by blast
qed

end
